theory Spec2Isabelle
  imports Main "HOL-Library.Monad_Syntax"
begin

section \<open>Go strings and slices\<close>

text \<open>
  A Go string is modelled as the list of its runes: \<open>for _, char := range line\<close>,
  \<open>strings.TrimSpace\<close> and \<open>strings.Fields\<close> all work rune by rune. The rune type is
  HOL's \<open>char\<close>, read as a code point below 256. On that range \<open>unicode.IsSpace\<close>
  holds for exactly U+0009 to U+000D, U+0020, U+0085 and U+00A0.

  An index or slice expression of Go panics when it is out of range. The helpers below
  return \<open>None\<close> for the panic, so that every index expression of the source is a
  branch of the model. Lengths and indices are \<open>int\<close>, as Go's \<open>len(x)-1\<close> may be
  negative.

  The source indexes strings by byte in three places: \<open>line[commentStart+1:]\<close> and
  \<open>line[:commentStart]\<close>, which cut at the position of a \<open>#\<close>, and
  \<open>directive[len(directive)-1] == '{'\<close>, which looks at the last byte. In a string of
  valid UTF-8 a byte below 128 is a rune of its own, so these read the same on the list
  of runes.
\<close>

definition isSpace :: "char \<Rightarrow> bool" where
  "isSpace c \<longleftrightarrow>
     c \<in> set [CHR 0x09, CHR 0x0A, CHR 0x0B, CHR 0x0C, CHR 0x0D, CHR 0x20, CHR 0x85, CHR 0xA0]"

definition TrimSpace :: "string \<Rightarrow> string" where
  "TrimSpace s = rev (dropWhile isSpace (rev (dropWhile isSpace s)))"

text \<open>\<open>strings.Fields\<close>: the maximal runs of non-space runes, in order.\<close>

fun fieldsFrom :: "string \<Rightarrow> string \<Rightarrow> string list" where
  "fieldsFrom w [] = (if w = [] then [] else [w])"
| "fieldsFrom w (c # cs) =
     (if isSpace c then (if w = [] then fieldsFrom [] cs else w # fieldsFrom [] cs)
      else fieldsFrom (w @ [c]) cs)"

definition Fields :: "string \<Rightarrow> string list" where
  "Fields s = fieldsFrom [] s"

text \<open>\<open>strings.Index\<close> for a one-rune pattern: the first position, or \<open>-1\<close>.\<close>

fun Index :: "string \<Rightarrow> char \<Rightarrow> int" where
  "Index [] c = -1"
| "Index (x # xs) c =
     (if x = c then 0 else (let i = Index xs c in if i < 0 then -1 else i + 1))"

definition HasSuffix :: "string \<Rightarrow> string \<Rightarrow> bool" where
  "HasSuffix s suffix \<longleftrightarrow>
     length suffix \<le> length s \<and> drop (length s - length suffix) s = suffix"

definition TrimSuffix :: "string \<Rightarrow> string \<Rightarrow> string" where
  "TrimSuffix s suffix =
     (if HasSuffix s suffix then take (length s - length suffix) s else s)"

fun Join :: "string list \<Rightarrow> string \<Rightarrow> string" where
  "Join [] sep = []"
| "Join [x] sep = x"
| "Join (x # y # ys) sep = x @ sep @ Join (y # ys) sep"

definition Repeat :: "string \<Rightarrow> nat \<Rightarrow> string" where
  "Repeat s n = concat (replicate n s)"

definition len :: "'a list \<Rightarrow> int" where
  "len xs = int (length xs)"

definition at :: "'a list \<Rightarrow> int \<Rightarrow> 'a option" where
  "at xs i = (if 0 \<le> i \<and> i < len xs then Some (xs ! nat i) else None)"

definition sliceFrom :: "'a list \<Rightarrow> int \<Rightarrow> 'a list option" where
  "sliceFrom xs i = (if 0 \<le> i \<and> i \<le> len xs then Some (drop (nat i) xs) else None)"

definition sliceTo :: "'a list \<Rightarrow> int \<Rightarrow> 'a list option" where
  "sliceTo xs j = (if 0 \<le> j \<and> j \<le> len xs then Some (take (nat j) xs) else None)"

definition slice :: "'a list \<Rightarrow> int \<Rightarrow> int \<Rightarrow> 'a list option" where
  "slice xs i j =
     (if 0 \<le> i \<and> i \<le> j \<and> j \<le> len xs then Some (take (nat (j - i)) (drop (nat i) xs))
      else None)"

section \<open>Data model\<close>

datatype LineType = LineTypeComment | LineTypeInclude | LineTypeDirective | LineTypeBlock

record Line =
  lName :: string
  lParams :: "string list"
  lComments :: "string list"
  lType :: LineType

text \<open>
  Blocks are reached through pointers and mutated in place, so they live in a store: a
  list of blocks, a pointer \<open>*Block\<close> being an index into it. A \<open>*Line\<close> is never
  written after its creation, and is kept as a value. A nil slice and an empty slice
  are both \<open>[]\<close>: the source tells them apart nowhere (it only takes \<open>len\<close>).
\<close>

type_synonym ptr = nat

record Block =
  bName :: string
  bParams :: "string list"
  bLines :: "Line list"
  bBlocks :: "ptr list"
  bComments :: "string list"
  bParentRef :: "ptr option"

type_synonym store = "Block list"

record Config =
  store :: store
  RootBlock :: ptr
  FilePath :: string

text \<open>The state that \<open>parseLine\<close> mutates: the blocks and \<open>*blockStack\<close>.\<close>

record pstate =
  heap :: store
  blockStack :: "ptr list"

text \<open>Reading and writing through a pointer; a pointer outside the store panics.\<close>

definition deref :: "store \<Rightarrow> ptr \<Rightarrow> Block option" where
  "deref h p = (if p < length h then Some (h ! p) else None)"

definition appendLine :: "ptr \<Rightarrow> Line \<Rightarrow> pstate \<Rightarrow> pstate option" where
  "appendLine p l st = do {
     b \<leftarrow> deref (heap st) p;
     Some (st\<lparr>heap := (heap st)[p := b\<lparr>bLines := bLines b @ [l]\<rparr>]\<rparr>)
   }"

definition appendBlock :: "ptr \<Rightarrow> ptr \<Rightarrow> pstate \<Rightarrow> pstate option" where
  "appendBlock p child st = do {
     b \<leftarrow> deref (heap st) p;
     Some (st\<lparr>heap := (heap st)[p := b\<lparr>bBlocks := bBlocks b @ [child]\<rparr>]\<rparr>)
   }"

section \<open>The splitter\<close>

text \<open>
  \<open>splitDirectives\<close>: the loop over the runes of the line, with its four variables and
  its early return at an unquoted \<open>{\<close>.
\<close>

fun splitLoop :: "string \<Rightarrow> string list \<Rightarrow> string \<Rightarrow> bool \<Rightarrow> char \<Rightarrow> string list" where
  "splitLoop [] results current inQuote quoteMark =
     (if length current > 0 then results @ [TrimSpace current] else results)"
| "splitLoop (c # cs) results current inQuote quoteMark =
     (if c = CHR 0x27 \<or> c = CHR 0x22 then
        (if inQuote \<and> c = quoteMark then splitLoop cs results (current @ [c]) False (CHR 0x00)
         else if \<not> inQuote then splitLoop cs results (current @ [c]) True c
         else splitLoop cs results (current @ [c]) inQuote quoteMark)
      else if c = CHR '';'' then
        (if inQuote then splitLoop cs results (current @ [c]) inQuote quoteMark
         else splitLoop cs (results @ [TrimSpace current]) [] inQuote quoteMark)
      else if c = CHR ''{'' then
        (if \<not> inQuote then results @ [TrimSpace (current @ [c])]
         else splitLoop cs results (current @ [c]) inQuote quoteMark)
      else splitLoop cs results (current @ [c]) inQuote quoteMark)"

definition splitDirectives :: "string \<Rightarrow> string list" where
  "splitDirectives line = splitLoop line [] [] False (CHR 0x00)"

section \<open>The tree builder\<close>

text \<open>
  The body of the loop over the fragments in \<open>parseLine\<close>. The loop carries the
  pending \<open>comments\<close> and the state; \<open>currentBlock\<close> is the pointer the caller passed and
  does not change during the line. \<open>continue\<close> returns the carried values as they are.
\<close>

definition parseDirective ::
  "ptr \<Rightarrow> string \<Rightarrow> string list \<times> pstate \<Rightarrow> (string list \<times> pstate) option" where
  "parseDirective currentBlock directive0 cs =
     (let comments = fst cs; st = snd cs; directive = TrimSpace directive0 in
      if directive = [] then Some (comments, st)
      else
        let parts = Fields directive in
        if len parts = 0 then Some (comments, st)
        else do {
          name \<leftarrow> at parts 0;
          params \<leftarrow> (if len parts > 1 then sliceFrom parts 1 else Some []);
          lastChar \<leftarrow> at directive (len directive - 1);
          if lastChar = CHR ''{'' then do {
            blockName \<leftarrow> at parts 0;
            blockParams \<leftarrow>
              (if len parts > 1 then do {
                 lastParam \<leftarrow> at parts (len parts - 1);
                 if lastParam = ''{'' then slice parts 1 (len parts - 1)
                 else if HasSuffix lastParam ''{'' then do {
                   front \<leftarrow> slice parts 1 (len parts - 1);
                   Some (front @ [TrimSuffix lastParam ''{''])
                 }
                 else sliceFrom parts 1
               }
               else Some []);
            let newBlock = length (heap st);
            let st1 = st\<lparr>heap := heap st @
                        [\<lparr>bName = blockName, bParams = blockParams, bLines = [], bBlocks = [],
                          bComments = comments, bParentRef = Some currentBlock\<rparr>]\<rparr>;
            st2 \<leftarrow> appendBlock currentBlock newBlock st1;
            let st3 = st2\<lparr>blockStack := blockStack st2 @ [newBlock]\<rparr>;
            st4 \<leftarrow> appendLine currentBlock
                    \<lparr>lName = blockName, lParams = blockParams, lComments = comments,
                     lType = LineTypeBlock\<rparr> st3;
            Some ([], st4)
          }
          else do {
            let lineType = (if name = ''include'' then LineTypeInclude else LineTypeDirective);
            st1 \<leftarrow> appendLine currentBlock
                    \<lparr>lName = name, lParams = params, lComments = comments, lType = lineType\<rparr> st;
            Some ([], st1)
          }
        })"

fun parseDirectives ::
  "ptr \<Rightarrow> string list \<Rightarrow> string list \<times> pstate \<Rightarrow> (string list \<times> pstate) option" where
  "parseDirectives currentBlock [] cs = Some cs"
| "parseDirectives currentBlock (d # ds) cs =
     parseDirective currentBlock d cs \<bind> parseDirectives currentBlock ds"

text \<open>
  The head of \<open>parseLine\<close>: the comment is everything after the first \<open>#\<close> of the line,
  found by \<open>strings.Index\<close>.
\<close>

definition splitComment :: "string \<Rightarrow> (string list \<times> string) option" where
  "splitComment line =
     (let commentStart = Index line (CHR ''#'') in
      if commentStart \<ge> 0 then do {
        commentText \<leftarrow> sliceFrom line (commentStart + 1);
        rest \<leftarrow> sliceTo line commentStart;
        Some ([TrimSpace commentText], TrimSpace rest)
      }
      else Some ([], line))"

definition parseLine :: "string \<Rightarrow> ptr \<Rightarrow> pstate \<Rightarrow> pstate option" where
  "parseLine line0 currentBlock st = do {
     (comments, line) \<leftarrow> splitComment line0;
     if line = [] then
       (if len comments > 0 then
          appendLine currentBlock
            \<lparr>lName = [], lParams = [], lComments = comments, lType = LineTypeComment\<rparr> st
        else Some st)
     else if line = ''}'' then
       (if len (blockStack st) > 1 then do {
          stack \<leftarrow> sliceTo (blockStack st) (len (blockStack st) - 1);
          Some (st\<lparr>blockStack := stack\<rparr>)
        }
        else Some st)
     else map_option snd (parseDirectives currentBlock (splitDirectives line) (comments, st))
   }"

section \<open>The driver\<close>

text \<open>
  \<open>ParseConfig\<close> opens the file and scans it line by line. The function below is
  \<open>ParseConfig\<close> from the point where the file has been opened and scanned: its input
  is either the error of \<open>os.Open\<close>, or the lines the scanner delivers together with
  what \<open>scanner.Err()\<close> reports once they are consumed: no error, a read error, or the
  scanner's own error for a line too long for its buffer. The next section derives
  this input from the contents of the file. The two \<open>return nil, err\<close> of the source
  are the errors \<open>OpenError\<close> and \<open>ScanError\<close>; \<open>Panic\<close> stands for a run-time panic of
  an index, slice or pointer expression.
\<close>

datatype error = OpenError string | ScanError string | Panic

datatype source = OpenFails string | Opened "string list" "string option"

fun scanLoop :: "string list \<Rightarrow> ptr \<Rightarrow> pstate \<Rightarrow> pstate option" where
  "scanLoop [] currentBlock st = Some st"
| "scanLoop (raw # rest) currentBlock st =
     (let line = TrimSpace raw in
      if line = [] then scanLoop rest currentBlock st
      else do {
        st1 \<leftarrow> parseLine line currentBlock st;
        currentBlock1 \<leftarrow>
          (if len (blockStack st1) > 0 then at (blockStack st1) (len (blockStack st1) - 1)
           else Some currentBlock);
        scanLoop rest currentBlock1 st1
      })"

definition rootBlock :: Block where
  "rootBlock = \<lparr>bName = ''root'', bParams = [], bLines = [], bBlocks = [], bComments = [],
                bParentRef = None\<rparr>"

definition initState :: pstate where
  "initState = \<lparr>heap = [rootBlock], blockStack = [0]\<rparr>"

definition ParseConfig :: "source \<Rightarrow> string \<Rightarrow> error + Config" where
  "ParseConfig src filePath =
     (case src of
        OpenFails err \<Rightarrow> Inl (OpenError err)
      | Opened lines scanErr \<Rightarrow>
          (case scanLoop lines 0 initState of
             None \<Rightarrow> Inl Panic
           | Some st \<Rightarrow>
               (case scanErr of
                  Some err \<Rightarrow> Inl (ScanError err)
                | None \<Rightarrow> Inr \<lparr>store = heap st, RootBlock = 0, FilePath = filePath\<rparr>)))"

section \<open>The file and its scanner\<close>

text \<open>
  \<open>ParseConfig\<close> reads its lines through \<open>bufio.NewScanner(file)\<close>: the split function
  is \<open>bufio.ScanLines\<close> and the buffer holds at most \<open>bufio.MaxScanTokenSize\<close> bytes,
  64 KiB. A file is the bytes that its reads deliver, followed by the end of the file
  or by a read error; opening it may fail instead.

  The scanner delivers one token for every line: the bytes up to the next newline,
  without the newline and without one carriage return before it. A last line with no
  newline is delivered when it is not empty. A line is delivered only if it fits the
  buffer together with its newline: when the buffer is full of the bytes of one line
  and holds no newline (in \<open>Scanner.Scan\<close>, \<open>s.end == len(s.buf)\<close> with
  \<open>len(s.buf) >= s.maxTokenSize\<close>), the scanner stops with \<open>bufio.ErrTooLong\<close>, after
  it has delivered the lines before. A read error is reported once the bytes read before it
  have been scanned as at the end of the file.

  The length that counts is in bytes: a rune below 128 is one byte of UTF-8, a rune
  from 128 to 255 is two.
\<close>

definition MaxScanTokenSize :: nat where
  "MaxScanTokenSize = 64 * 1024"

definition byteLen :: "string \<Rightarrow> nat" where
  "byteLen s = sum_list (map (\<lambda>c. if (of_char c :: nat) < 128 then 1 else 2) s)"

definition dropCR :: "string \<Rightarrow> string" where
  "dropCR data = (if data \<noteq> [] \<and> last data = CHR 0x0D then butlast data else data)"

fun scanTokens :: "string \<Rightarrow> string \<Rightarrow> string list \<times> bool" where
  "scanTokens pending [] =
     (if pending = [] then ([], False)
      else if MaxScanTokenSize \<le> byteLen pending then ([], True)
      else ([dropCR pending], False))"
| "scanTokens pending (c # cs) =
     (if c = CHR 0x0A then
        (if MaxScanTokenSize \<le> byteLen pending then ([], True)
         else (case scanTokens [] cs of (tokens, long) \<Rightarrow> (dropCR pending # tokens, long)))
      else scanTokens (pending @ [c]) cs)"

datatype diskFile = NoFile string | File string "string option"

definition ErrTooLong :: string where
  "ErrTooLong = ''bufio.Scanner: token too long''"

definition scanFile :: "diskFile \<Rightarrow> source" where
  "scanFile f =
     (case f of
        NoFile err \<Rightarrow> OpenFails err
      | File data readErr \<Rightarrow>
          (case scanTokens [] data of
             (tokens, long) \<Rightarrow> Opened tokens (if long then Some ErrTooLong else readErr)))"

text \<open>
  \<open>ParseConfig\<close> of the source on a file system where \<open>filePath\<close> names the file \<open>f\<close>:
  the outcome of opening and scanning \<open>f\<close>, handed to the function of the previous
  section.
\<close>

definition ParseConfigFile :: "diskFile \<Rightarrow> string \<Rightarrow> error + Config" where
  "ParseConfigFile f filePath = ParseConfig (scanFile f) filePath"

section \<open>The flat printer\<close>

text \<open>
  \<open>printBlock\<close> writes with \<open>println\<close>, one line per call: its result is the list of
  the lines written. The loop over \<open>block.Lines\<close> is \<open>printLines\<close>. The recursion
  follows the child pointers of the store, which a store with a cycle would let run
  forever: the function takes fuel, one unit per level of nesting, and returns \<open>None\<close>
  when it runs out or a pointer is outside the store.
\<close>

definition printLine :: "string \<Rightarrow> Line \<Rightarrow> string" where
  "printLine indentStr line =
     (let lineStr = indentStr @ ''  '' @ lName line;
          lineStr = (if len (lParams line) > 0 then lineStr @ '' '' @ Join (lParams line) '' ''
                     else lineStr);
          lineStr = (if lType line \<noteq> LineTypeComment then lineStr @ '';'' else lineStr);
          lineStr = (if len (lComments line) > 0
                     then lineStr @ '' # '' @ Join (lComments line) '' '' else lineStr)
      in lineStr)"

fun printLines :: "string \<Rightarrow> Line list \<Rightarrow> string list" where
  "printLines indentStr [] = []"
| "printLines indentStr (line # rest) =
     (if lType line = LineTypeBlock then printLines indentStr rest
      else printLine indentStr line # printLines indentStr rest)"

definition printHeader :: "string \<Rightarrow> Block \<Rightarrow> string" where
  "printHeader indentStr block =
     (let blockStr = indentStr @ bName block;
          blockStr = (if len (bParams block) > 0
                      then blockStr @ '' '' @ Join (bParams block) '' '' else blockStr);
          blockStr = blockStr @ '' {'';
          blockStr = (if len (bComments block) > 0
                      then blockStr @ '' # '' @ Join (bComments block) '' '' else blockStr)
      in blockStr)"

fun printBlock :: "nat \<Rightarrow> store \<Rightarrow> ptr \<Rightarrow> nat \<Rightarrow> string list option"
  and printBlocks :: "nat \<Rightarrow> store \<Rightarrow> ptr list \<Rightarrow> nat \<Rightarrow> string list option" where
  "printBlock 0 h p indent = None"
| "printBlock (Suc fuel) h p indent = do {
     block \<leftarrow> deref h p;
     let indentStr = Repeat ''  '' indent;
     children \<leftarrow> printBlocks fuel h (bBlocks block) (indent + 1);
     Some ((if bName block \<noteq> ''root'' then [printHeader indentStr block] else []) @
           printLines indentStr (bLines block) @
           children @
           (if bName block \<noteq> ''root'' then [indentStr @ ''}''] else []))
   }"
| "printBlocks fuel h [] indent = Some []"
| "printBlocks fuel h (childBlock # rest) indent = do {
     first \<leftarrow> printBlock fuel h childBlock indent;
     others \<leftarrow> printBlocks fuel h rest indent;
     Some (first @ others)
   }"

definition PrintConfig :: "nat \<Rightarrow> Config \<Rightarrow> string list option" where
  "PrintConfig fuel config = printBlock fuel (store config) (RootBlock config) 0"

text \<open>
  The text that \<open>println\<close> writes for a list of lines, each followed by a newline;
  also the contents of a file that holds these lines.
\<close>

definition linesText :: "string list \<Rightarrow> string" where
  "linesText out = concat (map (\<lambda>l. l @ [CHR 0x0A]) out)"

section \<open>Derived notions\<close>

text \<open>
  The definitions from here on are not part of the model of the source. They restate
  pieces of it without the option monad, so that a run can be followed step by step
  (lemmas \<open>parseDirective_eq\<close>, \<open>parseLine_eq\<close> and \<open>scanLoop_eq\<close> prove each restatement
  equal to the model wherever the stack is in order), or they name the properties that
  the theorems are about.
\<close>

subsection \<open>The tree builder, step by step\<close>

text \<open>
  The parameters of a new block: \<open>blockParams\<close> of \<open>parseLine\<close>, as a function of
  \<open>parts\<close>.
\<close>

definition blockParamsOf :: "string list \<Rightarrow> string list" where
  "blockParamsOf parts =
     (if length parts > 1 then
        (if last parts = ''{'' then butlast (tl parts)
         else if HasSuffix (last parts) ''{'' then butlast (tl parts) @ [TrimSuffix (last parts) ''{'']
         else tl parts)
      else [])"

text \<open>
  The two appends to the current block and the creation of a block, on the store.
\<close>

definition addLine :: "ptr \<Rightarrow> Line \<Rightarrow> store \<Rightarrow> store" where
  "addLine p l h = h[p := (h ! p)\<lparr>bLines := bLines (h ! p) @ [l]\<rparr>]"

definition addChild :: "ptr \<Rightarrow> ptr \<Rightarrow> store \<Rightarrow> store" where
  "addChild p c h = h[p := (h ! p)\<lparr>bBlocks := bBlocks (h ! p) @ [c]\<rparr>]"

definition openBlock :: "ptr \<Rightarrow> string \<Rightarrow> string list \<Rightarrow> string list \<Rightarrow> pstate \<Rightarrow> pstate" where
  "openBlock cur name params comments st =
     \<lparr>heap = addLine cur \<lparr>lName = name, lParams = params, lComments = comments, lType = LineTypeBlock\<rparr>
               (addChild cur (length (heap st))
                 (heap st @ [\<lparr>bName = name, bParams = params, bLines = [], bBlocks = [],
                              bComments = comments, bParentRef = Some cur\<rparr>])),
      blockStack = blockStack st @ [length (heap st)]\<rparr>"

text \<open>
  The Line that one fragment produces, if any: none for a fragment that is empty once
  trimmed, a BlockStart line for a fragment that ends in \<open>{\<close>, a directive or include
  line otherwise. \<open>fragmentLines\<close> hands the comment of the physical line to the first
  Line produced and no comment to the later ones.
\<close>

definition plainLine :: "string list \<Rightarrow> string list \<Rightarrow> Line" where
  "plainLine parts comments =
     \<lparr>lName = hd parts, lParams = tl parts, lComments = comments,
      lType = (if hd parts = ''include'' then LineTypeInclude else LineTypeDirective)\<rparr>"

definition fragmentLine :: "string \<Rightarrow> string list \<Rightarrow> Line option" where
  "fragmentLine d comments =
     (let directive = TrimSpace d; parts = Fields directive in
      if directive = [] \<or> parts = [] then None
      else if last directive = CHR ''{'' then
        Some \<lparr>lName = hd parts, lParams = blockParamsOf parts, lComments = comments,
              lType = LineTypeBlock\<rparr>
      else Some (plainLine parts comments))"

definition applyLine :: "ptr \<Rightarrow> Line \<Rightarrow> pstate \<Rightarrow> pstate" where
  "applyLine cur l st =
     (if lType l = LineTypeBlock then openBlock cur (lName l) (lParams l) (lComments l) st
      else st\<lparr>heap := addLine cur l (heap st)\<rparr>)"

fun fragmentLines :: "string list \<Rightarrow> string list \<Rightarrow> Line list" where
  "fragmentLines [] comments = []"
| "fragmentLines (d # ds) comments =
     (case fragmentLine d comments of
        None \<Rightarrow> fragmentLines ds comments
      | Some l \<Rightarrow> l # fragmentLines ds [])"

definition applyLines :: "ptr \<Rightarrow> Line list \<Rightarrow> pstate \<Rightarrow> pstate" where
  "applyLines cur ls st = foldl (\<lambda>s l. applyLine cur l s) st ls"

text \<open>
  The comment and the remaining text of a line, \<open>splitComment\<close> without the slice
  expressions; one call of \<open>parseLine\<close>; and the scanning loop.
\<close>

definition commentOf :: "string \<Rightarrow> string list \<times> string" where
  "commentOf line =
     (if CHR ''#'' \<in> set line then
        ([TrimSpace (tl (dropWhile (\<lambda>c. c \<noteq> CHR ''#'') line))],
         TrimSpace (takeWhile (\<lambda>c. c \<noteq> CHR ''#'') line))
      else ([], line))"

definition commentLine :: "string list \<Rightarrow> Line" where
  "commentLine comments =
     \<lparr>lName = [], lParams = [], lComments = comments, lType = LineTypeComment\<rparr>"

definition lineStep :: "string \<Rightarrow> ptr \<Rightarrow> pstate \<Rightarrow> pstate" where
  "lineStep line cur st =
     (let comments = fst (commentOf line); rest = snd (commentOf line) in
      if rest = [] then
        (if comments \<noteq> [] then st\<lparr>heap := addLine cur (commentLine comments) (heap st)\<rparr>
         else st)
      else if rest = ''}'' then
        (if length (blockStack st) > 1 then st\<lparr>blockStack := butlast (blockStack st)\<rparr> else st)
      else applyLines cur (fragmentLines (splitDirectives rest) comments) st)"

fun scanSteps :: "string list \<Rightarrow> pstate \<Rightarrow> pstate" where
  "scanSteps [] st = st"
| "scanSteps (raw # rest) st =
     (if TrimSpace raw = [] then scanSteps rest st
      else scanSteps rest (lineStep (TrimSpace raw) (last (blockStack st)) st))"

subsection \<open>Invariants of the parse\<close>

text \<open>
  The stack is never empty, its bottom is the root, and its entries are addresses of
  the store.
\<close>

definition stackOk :: "pstate \<Rightarrow> bool" where
  "stackOk st \<longleftrightarrow>
     blockStack st \<noteq> [] \<and> hd (blockStack st) = 0 \<and> list_all (\<lambda>p. p < length (heap st)) (blockStack st)"

definition isBlockStart :: "Line \<Rightarrow> bool" where
  "isBlockStart l \<longleftrightarrow> lType l = LineTypeBlock"

definition blockOf :: "ptr \<Rightarrow> Line \<Rightarrow> Block" where
  "blockOf cur l =
     \<lparr>bName = lName l, bParams = lParams l, bLines = [], bBlocks = [],
      bComments = lComments l, bParentRef = Some cur\<rparr>"

text \<open>The block at \<open>cur\<close> after lines \<open>ls\<close> were added to it, in a store of size \<open>n\<close>.\<close>

definition grown :: "nat \<Rightarrow> Line list \<Rightarrow> Block \<Rightarrow> Block" where
  "grown n ls b =
     b\<lparr>bBlocks := bBlocks b @ [n ..< n + length (filter isBlockStart ls)],
       bLines := bLines b @ ls\<rparr>"

text \<open>What one line adds to the block at \<open>currentBlock\<close>.\<close>

definition lineItems :: "string \<Rightarrow> Line list" where
  "lineItems line =
     (let comments = fst (commentOf line); rest = snd (commentOf line) in
      if rest = [] then (if comments \<noteq> [] then [commentLine comments] else [])
      else if rest = ''}'' then []
      else fragmentLines (splitDirectives rest) comments)"

definition lineHead :: "Line \<Rightarrow> string \<times> string list" where
  "lineHead l = (lName l, lParams l)"

definition blockHead :: "Block \<Rightarrow> string \<times> string list" where
  "blockHead b = (bName b, bParams b)"

text \<open>
  The BlockStart lines of a block mirror its children: same number, same order, same
  name and arguments; and the children are blocks of the store.
\<close>

definition blockOk :: "store \<Rightarrow> Block \<Rightarrow> bool" where
  "blockOk h b \<longleftrightarrow>
     map lineHead (filter isBlockStart (bLines b)) = map (\<lambda>c. blockHead (h ! c)) (bBlocks b) \<and>
     list_all (\<lambda>c. c < length h) (bBlocks b)"

definition shape :: "store \<Rightarrow> bool" where
  "shape h \<longleftrightarrow> list_all (blockOk h) h"

subsection \<open>Quotes and fragments\<close>

text \<open>
  The quote state of \<open>splitDirectives\<close>, on its own: the variables \<open>inQuote\<close> and
  \<open>quoteMark\<close> as one step per rune, and an occurrence of a rune outside quotes.
\<close>

definition quoteStep :: "char \<Rightarrow> bool \<times> char \<Rightarrow> bool \<times> char" where
  "quoteStep c q =
     (if c = CHR 0x27 \<or> c = CHR 0x22 then
        (if fst q \<and> c = snd q then (False, CHR 0x00)
         else if \<not> fst q then (True, c)
         else q)
      else q)"

fun quoteScan :: "string \<Rightarrow> bool \<times> char \<Rightarrow> bool \<times> char" where
  "quoteScan [] q = q"
| "quoteScan (c # cs) q = quoteScan cs (quoteStep c q)"

fun unquotedOcc :: "char \<Rightarrow> string \<Rightarrow> bool \<times> char \<Rightarrow> bool" where
  "unquotedOcc x [] q = False"
| "unquotedOcc x (c # cs) q = ((c = x \<and> \<not> fst q) \<or> unquotedOcc x cs (quoteStep c q))"

definition noQuote :: "bool \<times> char" where
  "noQuote = (False, CHR 0x00)"

definition trimRight :: "string \<Rightarrow> string" where
  "trimRight s = rev (dropWhile isSpace (rev s))"

text \<open>What the splitter guarantees of a fragment.\<close>

definition fragmentOk :: "string \<Rightarrow> bool" where
  "fragmentOk f \<longleftrightarrow>
     \<not> unquotedOcc (CHR '';'') f noQuote \<and> \<not> unquotedOcc (CHR ''{'') (butlast f) noQuote \<and>
     TrimSpace f = f"

subsection \<open>Printing and parsing again\<close>

text \<open>
  Two stores hold the same structure when they have the same blocks at the same
  addresses (name, parameters, children, parent) and, in every block, the same lines
  that are not BlockStart lines (kind, name, parameters) in the same order, and the
  same BlockStart lines in the same order. Comments are left out.
\<close>

definition lineKey :: "Line \<Rightarrow> LineType \<times> string \<times> string list" where
  "lineKey l = (lType l, lName l, lParams l)"

definition sameBlock :: "Block \<Rightarrow> Block \<Rightarrow> bool" where
  "sameBlock a b \<longleftrightarrow>
     bName a = bName b \<and> bParams a = bParams b \<and> bBlocks a = bBlocks b \<and>
     bParentRef a = bParentRef b \<and>
     map lineKey (filter (\<lambda>l. lType l \<noteq> LineTypeBlock) (bLines a)) =
       map lineKey (filter (\<lambda>l. lType l \<noteq> LineTypeBlock) (bLines b)) \<and>
     map lineKey (filter (\<lambda>l. lType l = LineTypeBlock) (bLines a)) =
       map lineKey (filter (\<lambda>l. lType l = LineTypeBlock) (bLines b))"

definition sameStructure :: "store \<Rightarrow> store \<Rightarrow> bool" where
  "sameStructure h h' \<longleftrightarrow> list_all2 sameBlock h h'"

definition wordOk :: "string \<Rightarrow> bool" where
  "wordOk w \<longleftrightarrow> w \<noteq> [] \<and> list_all (\<lambda>c. \<not> isSpace c) w"

text \<open>
  What the parser guarantees of the words of a line or of a block head, and what the
  printer needs of them to be read back: the words have no white space and no \<open>#\<close>, and
  their text has no \<open>;\<close> outside quotes.
\<close>

definition textGood :: "string list \<Rightarrow> bool" where
  "textGood ws \<longleftrightarrow>
     ws \<noteq> [] \<and> list_all wordOk ws \<and> CHR ''#'' \<notin> set (concat ws) \<and>
     \<not> unquotedOcc (CHR '';'') (concat ws) noQuote"

definition lineGood :: "Line \<Rightarrow> bool" where
  "lineGood l =
     (if lType l = LineTypeBlock then True
      else if lType l = LineTypeComment then lName l = [] \<and> lParams l = [] \<and> lComments l \<noteq> []
      else textGood (lName l # lParams l) \<and>
           \<not> unquotedOcc (CHR ''{'') (concat (lName l # lParams l)) noQuote \<and>
           last (concat (lName l # lParams l)) \<noteq> CHR ''{'' \<and>
           lType l = (if lName l = ''include'' then LineTypeInclude else LineTypeDirective))"

definition headGood :: "string \<Rightarrow> string list \<Rightarrow> bool" where
  "headGood n ps \<longleftrightarrow>
     textGood (n # ps) \<and>
     (\<not> unquotedOcc (CHR ''{'') (concat (n # ps)) noQuote \<or>
      (ps = [] \<and> last n = CHR ''{'' \<and> \<not> unquotedOcc (CHR ''{'') (butlast n) noQuote))"

text \<open>No quote is left open at the end of the text of a directive.\<close>

definition quotesClosed :: "Line \<Rightarrow> bool" where
  "quotesClosed l \<longleftrightarrow>
     lType l = LineTypeBlock \<or> lType l = LineTypeComment \<or>
     \<not> fst (quoteScan (Join (lName l # lParams l) '' '') noQuote)"

definition headerStr :: "string \<Rightarrow> string \<Rightarrow> string list \<Rightarrow> string list \<Rightarrow> string" where
  "headerStr indentStr n ps cs =
     indentStr @ Join (n # ps) '' '' @ '' {'' @
     (if cs = [] then [] else '' # '' @ Join cs '' '')"

text \<open>A line and a block head as they come back from their printed form.\<close>

definition reline :: "Line \<Rightarrow> Line" where
  "reline l = l\<lparr>lComments := fst (commentOf (TrimSpace (printLine [] l)))\<rparr>"

definition rehead :: "string \<Rightarrow> string list \<Rightarrow> string list \<Rightarrow> Line" where
  "rehead n ps cs =
     \<lparr>lName = n, lParams = ps,
      lComments = fst (commentOf (TrimSpace (headerStr [] n ps cs))),
      lType = LineTypeBlock\<rparr>"

definition itemGood :: "Line \<Rightarrow> bool" where
  "itemGood l \<longleftrightarrow> lineGood l \<and> (lType l = LineTypeBlock \<longrightarrow> headGood (lName l) (lParams l))"

definition noBraceEnd :: "string \<Rightarrow> bool" where
  "noBraceEnd f \<longleftrightarrow> f = [] \<or> last f \<noteq> CHR ''{''"

definition blockGood :: "Block \<Rightarrow> bool" where
  "blockGood b \<longleftrightarrow>
     list_all itemGood (bLines b) \<and> (bParentRef b = None \<or> headGood (bName b) (bParams b))"

definition storeGood :: "store \<Rightarrow> bool" where
  "storeGood h \<longleftrightarrow> list_all blockGood h"

section \<open>The store as a tree\<close>

text \<open>
  The blocks of a parsed store, read as a tree: a node has the name, parameters,
  comments and lines of a block, and its child nodes. \<open>layout a par t\<close> is the store
  segment of the tree \<open>t\<close> when its root is allocated at address \<open>a\<close> under the parent
  \<open>par\<close>: the blocks in the order of their allocation, which is the order in which
  the blocks were opened.
\<close>

datatype tree =
  Node (tName: string) (tParams: "string list") (tComments: "string list")
    (tLines: "Line list") (tKids: "tree list")

fun sz :: "tree \<Rightarrow> nat" where
  "sz (Node n ps cs ls ts) = Suc (sum_list (map sz ts))"

definition szs :: "tree list \<Rightarrow> nat" where
  "szs ts = sum_list (map sz ts)"

fun starts :: "nat \<Rightarrow> tree list \<Rightarrow> nat list" where
  "starts a [] = []"
| "starts a (t # ts) = a # starts (a + sz t) ts"

fun layout :: "nat \<Rightarrow> ptr option \<Rightarrow> tree \<Rightarrow> store"
  and layouts :: "nat \<Rightarrow> ptr option \<Rightarrow> tree list \<Rightarrow> store" where
  "layout a par (Node n ps cs ls ts) =
     \<lparr>bName = n, bParams = ps, bLines = ls, bBlocks = starts (Suc a) ts, bComments = cs,
      bParentRef = par\<rparr> # layouts (Suc a) (Some a) ts"
| "layouts a par [] = []"
| "layouts a par (t # ts) = layout a par t @ layouts (a + sz t) par ts"

text \<open>
  During the parse the blocks on the stack are still open. The open blocks below the
  top are the frames \<open>gs\<close>, outermost first, each with the children it has closed so far;
  \<open>f\<close> is the block on top of the stack.
\<close>

fun layoutZ :: "nat \<Rightarrow> ptr option \<Rightarrow> tree list \<Rightarrow> tree \<Rightarrow> store" where
  "layoutZ a par [] f = layout a par f"
| "layoutZ a par (g # gs) f =
     \<lparr>bName = tName g, bParams = tParams g, bLines = tLines g,
      bBlocks = starts (Suc a) (tKids g) @ [Suc a + szs (tKids g)], bComments = tComments g,
      bParentRef = par\<rparr> #
     layouts (Suc a) (Some a) (tKids g) @ layoutZ (Suc a + szs (tKids g)) (Some a) gs f"

fun offZ :: "tree list \<Rightarrow> nat" where
  "offZ [] = 0"
| "offZ (g # gs) = Suc (szs (tKids g)) + offZ gs"

fun stackZ :: "nat \<Rightarrow> tree list \<Rightarrow> nat list" where
  "stackZ a [] = [a]"
| "stackZ a (g # gs) = a # stackZ (Suc a + szs (tKids g)) gs"

definition addLines :: "Line list \<Rightarrow> tree \<Rightarrow> tree" where
  "addLines ls t = Node (tName t) (tParams t) (tComments t) (tLines t @ ls) (tKids t)"

definition addKid :: "tree \<Rightarrow> tree \<Rightarrow> tree" where
  "addKid g t = Node (tName g) (tParams g) (tComments g) (tLines g) (tKids g @ [t])"

definition newNode :: "Line \<Rightarrow> tree" where
  "newNode l = Node (lName l) (lParams l) (lComments l) [] []"

text \<open>The parser on the frames: what a line does to the open blocks.\<close>

type_synonym zstate = "tree list \<times> tree"

definition applyItems :: "Line list \<Rightarrow> zstate \<Rightarrow> zstate" where
  "applyItems ls z =
     (if ls \<noteq> [] \<and> isBlockStart (last ls)
      then (fst z @ [addLines ls (snd z)], newNode (last ls))
      else (fst z, addLines ls (snd z)))"

definition zstep :: "string \<Rightarrow> zstate \<Rightarrow> zstate" where
  "zstep line z =
     (if snd (commentOf line) = ''}''
      then (if fst z \<noteq> [] then (butlast (fst z), addKid (last (fst z)) (snd z)) else z)
      else applyItems (lineItems line) z)"

fun zscan :: "string list \<Rightarrow> zstate \<Rightarrow> zstate" where
  "zscan [] z = z"
| "zscan (raw # rest) z =
     (if TrimSpace raw = [] then zscan rest z else zscan rest (zstep (TrimSpace raw) z))"

definition rel :: "pstate \<Rightarrow> zstate \<Rightarrow> bool" where
  "rel st z \<longleftrightarrow>
     heap st = layoutZ 0 None (fst z) (snd z) \<and> blockStack st = stackZ 0 (fst z)"

definition plug :: "zstate \<Rightarrow> tree" where
  "plug z = foldr addKid (fst z) (snd z)"

definition rootNode :: tree where
  "rootNode = Node ''root'' [] [] [] []"

text \<open>The printer on the tree.\<close>

fun render :: "tree \<Rightarrow> nat \<Rightarrow> string list" where
  "render (Node n ps cs ls ts) indent =
     (if n \<noteq> ''root'' then [headerStr (Repeat ''  '' indent) n ps cs] else []) @
     printLines (Repeat ''  '' indent) ls @
     concat (map (\<lambda>t. render t (indent + 1)) ts) @
     (if n \<noteq> ''root'' then [Repeat ''  '' indent @ ''}''] else [])"

text \<open>
  The conditions under which the printed text of a tree reads back: below the root no
  block is named \<open>root\<close>, the words of heads and lines are as the parser leaves them,
  and no directive leaves a quote open.
\<close>

definition linesGood :: "Line list \<Rightarrow> bool" where
  "linesGood ls \<longleftrightarrow> list_all (\<lambda>l. lineGood l \<and> quotesClosed l) ls"

fun kidGood :: "tree \<Rightarrow> bool" where
  "kidGood (Node n ps cs ls ts) \<longleftrightarrow>
     n \<noteq> ''root'' \<and> headGood n ps \<and> linesGood ls \<and> list_all kidGood ts"

definition headLine :: "tree \<Rightarrow> Line" where
  "headLine t = rehead (tName t) (tParams t) (tComments t)"

text \<open>The tree that the printed text of a tree parses to.\<close>

fun norm :: "tree \<Rightarrow> tree" where
  "norm (Node n ps cs ls ts) =
     Node n ps (lComments (rehead n ps cs))
       (map reline (filter (\<lambda>l. \<not> isBlockStart l) ls) @
        map (\<lambda>t. rehead (tName t) (tParams t) (tComments t)) ts)
       (map norm ts)"

definition normRoot :: "tree \<Rightarrow> tree" where
  "normRoot t =
     Node ''root'' [] []
       (map reline (filter (\<lambda>l. \<not> isBlockStart l) (tLines t)) @ map headLine (tKids t))
       (map norm (tKids t))"

definition adopt :: "tree \<Rightarrow> tree \<Rightarrow> tree" where
  "adopt f k = addKid (addLines [headLine k] f) (norm k)"

definition blockFine :: "Block \<Rightarrow> bool" where
  "blockFine b \<longleftrightarrow> blockGood b \<and> list_all quotesClosed (bLines b) \<and> bName b \<noteq> ''root''"

text \<open>Two blocks that agree but for the comments and the place of the BlockStart lines.\<close>

definition coreEq :: "Block \<Rightarrow> Block \<Rightarrow> bool" where
  "coreEq a b \<longleftrightarrow>
     bName a = bName b \<and> bParams a = bParams b \<and> bBlocks a = bBlocks b \<and>
     bParentRef a = bParentRef b \<and>
     map lineKey (filter (\<lambda>l. \<not> isBlockStart l) (bLines a)) =
       map lineKey (filter (\<lambda>l. \<not> isBlockStart l) (bLines b))"

definition outer :: "zstate \<Rightarrow> string \<times> string list" where
  "outer z = (tName (hd (fst z @ [snd z])), tParams (hd (fst z @ [snd z])))"

text \<open>
  Printing a Config and parsing the printed text again: the lines written by
  \<open>println\<close> are the contents of the file that the second call of \<open>ParseConfig\<close>
  opens and scans.
\<close>

definition roundTrip :: "nat \<Rightarrow> diskFile \<Rightarrow> string \<Rightarrow> error + Config \<times> Config" where
  "roundTrip fuel f fp =
     (case ParseConfigFile f fp of
        Inl e \<Rightarrow> Inl e
      | Inr cfg \<Rightarrow>
          (case PrintConfig fuel cfg of
             None \<Rightarrow> Inl Panic
           | Some out \<Rightarrow>
               (case ParseConfigFile (File (linesText out) None) fp of
                  Inl e \<Rightarrow> Inl e
                | Inr cfg' \<Rightarrow> Inr (cfg, cfg'))))"

text \<open>
  The round trip as the specification words it: the scopes and the lines of the two
  Configs have the same names and arguments, in the same order.
\<close>

definition scopeHeads :: "Config \<Rightarrow> (string \<times> string list) list" where
  "scopeHeads cfg = map blockHead (store cfg)"

definition lineHeads :: "Config \<Rightarrow> (string \<times> string list) list list" where
  "lineHeads cfg = map (\<lambda>b. map lineHead (bLines b)) (store cfg)"

definition roundTripSame :: "nat \<Rightarrow> diskFile \<Rightarrow> string \<Rightarrow> bool" where
  "roundTripSame fuel f fp =
     (case roundTrip fuel f fp of
        Inl e \<Rightarrow> False
      | Inr cc \<Rightarrow> scopeHeads (fst cc) = scopeHeads (snd cc) \<and>
                 lineHeads (fst cc) = lineHeads (snd cc))"

text \<open>
  What the round trip prints, and the lines (name and arguments) of every block before
  and after it.
\<close>

definition printed :: "nat \<Rightarrow> diskFile \<Rightarrow> string \<Rightarrow> string list option" where
  "printed fuel f fp =
     (case ParseConfigFile f fp of
        Inl e \<Rightarrow> None
      | Inr cfg \<Rightarrow> PrintConfig fuel cfg)"

definition tripLines ::
  "nat \<Rightarrow> diskFile \<Rightarrow> string \<Rightarrow>
   error + (string \<times> string list) list list \<times> (string \<times> string list) list list" where
  "tripLines fuel f fp =
     (case roundTrip fuel f fp of
        Inl e \<Rightarrow> Inl e
      | Inr cc \<Rightarrow> Inr (lineHeads (fst cc), lineHeads (snd cc)))"

subsection \<open>Lines and the scanner\<close>

text \<open>
  The lines that the scanner delivers of a file, and whether it stops at a line too long
  for its buffer.
\<close>

definition fileLines :: "string \<Rightarrow> string list" where
  "fileLines data = fst (scanTokens [] data)"

definition tooLong :: "string \<Rightarrow> bool" where
  "tooLong data = snd (scanTokens [] data)"

text \<open>
  A string with no newline; a line that fits the buffer of the scanner together with
  its newline; a Line and a Block whose strings hold no newline.
\<close>

definition quiet :: "string \<Rightarrow> bool" where
  "quiet s \<longleftrightarrow> CHR 0x0A \<notin> set s"

definition fits :: "string \<Rightarrow> bool" where
  "fits l \<longleftrightarrow> byteLen l < MaxScanTokenSize"

definition lineQuiet :: "Line \<Rightarrow> bool" where
  "lineQuiet l \<longleftrightarrow>
     quiet (lName l) \<and> list_all quiet (lParams l) \<and> list_all quiet (lComments l)"

definition blockQuiet :: "Block \<Rightarrow> bool" where
  "blockQuiet b \<longleftrightarrow>
     quiet (bName b) \<and> list_all quiet (bParams b) \<and> list_all quiet (bComments b) \<and>
     list_all lineQuiet (bLines b)"

section \<open>Go slices without the panics\<close>

lemma at_first: "xs \<noteq> [] \<Longrightarrow> at xs 0 = Some (hd xs)"
  by (cases xs) (simp_all add: at_def len_def)

lemma nat_len_pred: "nat (len xs - 1) = length xs - 1"
  by (cases xs) (simp_all add: len_def)

lemma at_last: "xs \<noteq> [] \<Longrightarrow> at xs (len xs - 1) = Some (last xs)"
  by (simp add: at_def nat_len_pred last_conv_nth) (simp add: len_def)

lemma sliceFrom_1: "xs \<noteq> [] \<Longrightarrow> sliceFrom xs 1 = Some (tl xs)"
  by (cases xs) (simp_all add: sliceFrom_def len_def drop_Suc)

lemma sliceTo_butlast: "xs \<noteq> [] \<Longrightarrow> sliceTo xs (len xs - 1) = Some (butlast xs)"
  by (simp add: sliceTo_def nat_len_pred butlast_conv_take) (simp add: len_def)

lemma slice_middle: "length xs > 1 \<Longrightarrow> slice xs 1 (len xs - 1) = Some (butlast (tl xs))"
proof -
  assume ne: "length xs > 1"
  have "nat (len xs - 1 - 1) = length (tl xs) - 1" by (simp add: len_def nat_diff_distrib)
  moreover have "1 \<le> len xs - 1" using ne by (simp add: len_def)
  moreover have "len xs - 1 \<le> len xs" by simp
  ultimately show ?thesis
    by (simp add: slice_def butlast_conv_take drop_Suc)
qed

lemma len_simps: "len xs = 0 \<longleftrightarrow> xs = []" "len xs > 0 \<longleftrightarrow> xs \<noteq> []" "len xs > 1 \<longleftrightarrow> length xs > 1"
  by (auto simp: len_def)

section \<open>The tree builder without the panics\<close>

text \<open>
  On a current block that is in the store, every append of \<open>parseLine\<close> succeeds and
  the model agrees with the step functions.
\<close>

lemma appendLine_eq:
  "p < length (heap st) \<Longrightarrow> appendLine p l st = Some (st\<lparr>heap := addLine p l (heap st)\<rparr>)"
  by (simp add: appendLine_def deref_def addLine_def)

lemma appendBlock_eq:
  "p < length (heap st) \<Longrightarrow> appendBlock p c st = Some (st\<lparr>heap := addChild p c (heap st)\<rparr>)"
  by (simp add: appendBlock_def deref_def addChild_def)

lemma length_addLine [simp]: "length (addLine p l h) = length h"
  by (simp add: addLine_def)

lemma length_addChild [simp]: "length (addChild p c h) = length h"
  by (simp add: addChild_def)

lemma parseDirective_eq:
  assumes "cur < length (heap st)"
  shows "parseDirective cur d (comments, st) =
     Some (let directive = TrimSpace d; parts = Fields directive in
           if directive = [] \<or> parts = [] then (comments, st)
           else if last directive = CHR ''{''
             then ([], openBlock cur (hd parts) (blockParamsOf parts) comments st)
           else ([], st\<lparr>heap := addLine cur (plainLine parts comments) (heap st)\<rparr>))"
proof -
  let ?dv = "TrimSpace d"
  let ?parts = "Fields ?dv"
  show ?thesis
  proof (cases "?dv = [] \<or> ?parts = []")
    case True
    then have "?dv = [] \<or> (?dv \<noteq> [] \<and> len ?parts = 0)" by (auto simp: len_def)
    then show ?thesis
      unfolding parseDirective_def Let_def fst_conv snd_conv
      using True by (elim disjE) simp_all
  next
    case False
    then have dv: "?dv \<noteq> []" and pa: "?parts \<noteq> []" by auto
    have fl: "sliceFrom ?parts 1 = Some (tl ?parts)" using pa by (rule sliceFrom_1)
    have params: "(if len ?parts > 1 then sliceFrom ?parts 1 else Some []) = Some (tl ?parts)"
      using pa fl by (cases ?parts) (auto simp: len_def)
    have bp: "(if len ?parts > 1 then do {
                 lastParam \<leftarrow> at ?parts (len ?parts - 1);
                 if lastParam = ''{'' then slice ?parts 1 (len ?parts - 1)
                 else if HasSuffix lastParam ''{'' then do {
                   front \<leftarrow> slice ?parts 1 (len ?parts - 1);
                   Some (front @ [TrimSuffix lastParam ''{''])
                 }
                 else sliceFrom ?parts 1
               }
               else Some []) = Some (blockParamsOf ?parts)"
      using pa by (simp add: at_last slice_middle sliceFrom_1 blockParamsOf_def len_simps)
    have l0: "len ?parts \<noteq> 0" using pa by (simp add: len_def)
    have a0: "at ?parts 0 = Some (hd ?parts)" using pa by (rule at_first)
    have al: "at ?dv (len ?dv - 1) = Some (last ?dv)" using dv by (rule at_last)
    have ab: "appendBlock cur c (st\<lparr>heap := heap st @ [b]\<rparr>) =
        Some (st\<lparr>heap := addChild cur c (heap st @ [b])\<rparr>)" for c b
      using assms by (simp add: appendBlock_eq)
    show ?thesis
      unfolding parseDirective_def Let_def fst_conv snd_conv params bp
      using dv l0 pa assms
      apply (simp only: a0 al if_False bind.bind_lunit)
      apply (simp only: ab bind.bind_lunit)
      apply (simp add: appendLine_eq openBlock_def plainLine_def)
      done
  qed
qed

lemma parseDirective_step:
  assumes "cur < length (heap st)"
  shows "parseDirective cur d (comments, st) =
     Some (case fragmentLine d comments of
             None \<Rightarrow> (comments, st)
           | Some l \<Rightarrow> ([], applyLine cur l st))"
  unfolding parseDirective_eq [OF assms]
  by (simp add: fragmentLine_def applyLine_def Let_def plainLine_def)

lemma heap_applyLine_length:
  "length (heap (applyLine cur l st)) =
     (if lType l = LineTypeBlock then Suc (length (heap st)) else length (heap st))"
  by (simp add: applyLine_def openBlock_def)

lemma applyLines_Nil [simp]: "applyLines cur [] st = st"
  by (simp add: applyLines_def)

lemma applyLines_Cons [simp]:
  "applyLines cur (l # ls) st = applyLines cur ls (applyLine cur l st)"
  by (simp add: applyLines_def)

lemma applyLines_append:
  "applyLines cur (ls @ ms) st = applyLines cur ms (applyLines cur ls st)"
  by (simp add: applyLines_def)

lemma parseDirectives_eq:
  "cur < length (heap st) \<Longrightarrow>
   parseDirectives cur ds (comments, st) =
     Some (if fragmentLines ds comments = [] then comments else [],
           applyLines cur (fragmentLines ds comments) st)"
proof (induction ds arbitrary: comments st)
  case Nil
  then show ?case by simp
next
  case (Cons d ds)
  show ?case
  proof (cases "fragmentLine d comments")
    case None
    then show ?thesis
      using Cons.prems Cons.IH [OF Cons.prems, of comments]
      by (simp add: parseDirective_step)
  next
    case (Some l)
    have "cur < length (heap (applyLine cur l st))"
      using Cons.prems by (simp add: heap_applyLine_length)
    from Cons.IH [OF this, of "[]"] Some Cons.prems show ?thesis
      by (simp add: parseDirective_step)
  qed
qed

lemma Index_takeWhile:
  "Index s c = (if c \<in> set s then int (length (takeWhile (\<lambda>x. x \<noteq> c) s)) else -1)"
  by (induction s) (auto simp: Let_def)

lemma length_takeWhile_neq:
  "c \<in> set s \<Longrightarrow> length (takeWhile (\<lambda>x. x \<noteq> c) s) < length s"
  by (induction s) auto

lemma splitComment_eq: "splitComment line = Some (commentOf line)"
proof (cases "CHR ''#'' \<in> set line")
  case False
  then show ?thesis
    by (simp add: splitComment_def commentOf_def Index_takeWhile)
next
  case True
  let ?n = "length (takeWhile (\<lambda>x. x \<noteq> CHR ''#'') line)"
  have lt: "?n < length line"
    using True by (rule length_takeWhile_neq)
  have t: "take ?n line = takeWhile (\<lambda>c. c \<noteq> CHR ''#'') line"
    by (rule takeWhile_eq_take [symmetric])
  have d: "drop ?n line = dropWhile (\<lambda>c. c \<noteq> CHR ''#'') line"
    by (rule dropWhile_eq_drop [symmetric])
  have n1: "nat (int ?n + 1) = Suc ?n" by simp
  have "drop (Suc ?n) line = tl (drop ?n line)" by (simp only: drop_Suc tl_drop)
  then have d': "drop (Suc ?n) line = tl (dropWhile (\<lambda>c. c \<noteq> CHR ''#'') line)"
    by (simp only: d)
  have a: "sliceFrom line (int ?n + 1) = Some (tl (dropWhile (\<lambda>c. c \<noteq> CHR ''#'') line))"
    unfolding sliceFrom_def len_def n1 d' using lt by simp
  have "take (nat (int ?n)) line = takeWhile (\<lambda>c. c \<noteq> CHR ''#'') line"
    using t by simp
  then have b: "sliceTo line (int ?n) = Some (takeWhile (\<lambda>c. c \<noteq> CHR ''#'') line)"
    unfolding sliceTo_def len_def using lt by simp
  show ?thesis
    using True by (simp add: splitComment_def commentOf_def Index_takeWhile a b)
qed

lemma parseLine_eq:
  assumes "cur < length (heap st)"
  shows "parseLine line cur st = Some (lineStep line cur st)"
proof -
  obtain comments rest where c: "commentOf line = (comments, rest)"
    by (cases "commentOf line")
  have pop: "length (blockStack st) > 1 \<Longrightarrow>
      sliceTo (blockStack st) (len (blockStack st) - 1) = Some (butlast (blockStack st))"
    by (rule sliceTo_butlast) auto
  show ?thesis
    unfolding parseLine_def lineStep_def splitComment_eq c
    using assms
    by (simp add: appendLine_eq commentLine_def parseDirectives_eq len_simps pop)
qed

section \<open>The stack stays in order\<close>

lemma stack_applyLine:
  "blockStack (applyLine cur l st) =
     blockStack st @ (if lType l = LineTypeBlock then [length (heap st)] else [])"
  by (simp add: applyLine_def openBlock_def)

lemma stackOk_applyLine: "stackOk st \<Longrightarrow> stackOk (applyLine cur l st)"
  by (cases "blockStack st")
     (auto simp: stackOk_def stack_applyLine heap_applyLine_length list_all_iff)

lemma stackOk_applyLines: "stackOk st \<Longrightarrow> stackOk (applyLines cur ls st)"
  by (induction ls arbitrary: st) (simp_all add: stackOk_applyLine)

lemma stackOk_butlast:
  "stackOk st \<Longrightarrow> length (blockStack st) > 1 \<Longrightarrow> stackOk (st\<lparr>blockStack := butlast (blockStack st)\<rparr>)"
  by (cases "blockStack st")
     (auto simp: stackOk_def list_all_iff dest: in_set_butlastD split: if_splits)

lemma stackOk_lineStep: "stackOk st \<Longrightarrow> stackOk (lineStep line cur st)"
  unfolding lineStep_def Let_def
  by (auto simp: stackOk_applyLines stackOk_butlast) (simp add: stackOk_def)

lemma stackOk_last: "stackOk st \<Longrightarrow> last (blockStack st) < length (heap st)"
  by (simp add: stackOk_def list_all_iff)

lemma stackOk_scanSteps: "stackOk st \<Longrightarrow> stackOk (scanSteps ls st)"
  by (induction ls arbitrary: st) (simp_all add: stackOk_lineStep)

lemma scanLoop_eq:
  "stackOk st \<Longrightarrow> scanLoop ls (last (blockStack st)) st = Some (scanSteps ls st)"
proof (induction ls arbitrary: st)
  case Nil
  then show ?case by simp
next
  case (Cons raw ls)
  let ?st1 = "lineStep (TrimSpace raw) (last (blockStack st)) st"
  have ok1: "stackOk ?st1" using Cons.prems by (rule stackOk_lineStep)
  then have ne: "blockStack ?st1 \<noteq> []" by (simp add: stackOk_def)
  have nxt: "(if len (blockStack ?st1) > 0 then at (blockStack ?st1) (len (blockStack ?st1) - 1)
              else Some (last (blockStack st))) = Some (last (blockStack ?st1))"
    using ne by (simp add: at_last len_simps)
  show ?case
  proof (cases "TrimSpace raw = []")
    case True
    then show ?thesis using Cons.IH [OF Cons.prems] by simp
  next
    case False
    have "scanLoop (raw # ls) (last (blockStack st)) st =
            scanLoop ls (last (blockStack ?st1)) ?st1"
      using False
      by (simp add: parseLine_eq [OF stackOk_last [OF Cons.prems]] nxt Let_def del: scanSteps.simps)
    then show ?thesis using False Cons.IH [OF ok1] by simp
  qed
qed

lemma stackOk_init: "stackOk initState"
  by (simp add: stackOk_def initState_def)

lemma scanLoop_init: "scanLoop ls 0 initState = Some (scanSteps ls initState)"
  using scanLoop_eq [OF stackOk_init, of ls] by (simp add: initState_def)

lemma ParseConfig_Opened:
  "ParseConfig (Opened ls None) fp =
     Inr \<lparr>store = heap (scanSteps ls initState), RootBlock = 0, FilePath = fp\<rparr>"
  by (simp add: ParseConfig_def scanLoop_init)

lemmas run_simps =
  lineStep_def commentOf_def initState_def rootBlock_def TrimSpace_def isSpace_def
  splitDirectives_def fragmentLine_def Fields_def applyLine_def openBlock_def addLine_def
  addChild_def blockParamsOf_def HasSuffix_def TrimSuffix_def plainLine_def commentLine_def
  Let_def

section \<open>The driver on a file\<close>

subsection \<open>The scanner\<close>

lemma byteLen_simps [simp]:
  "byteLen [] = 0"
  "byteLen (s @ t) = byteLen s + byteLen t"
  "byteLen (c # s) = (if (of_char c :: nat) < 128 then 1 else 2) + byteLen s"
  by (simp_all add: byteLen_def)

lemma quiet_simps [simp]:
  "quiet []"
  "quiet (s @ t) \<longleftrightarrow> quiet s \<and> quiet t"
  "quiet (c # s) \<longleftrightarrow> c \<noteq> CHR 0x0A \<and> quiet s"
  by (auto simp: quiet_def)

lemma set_dropCR: "set (dropCR s) \<subseteq> set s"
  by (auto simp: dropCR_def dest: in_set_butlastD)

lemma quiet_dropCR: "quiet s \<Longrightarrow> quiet (dropCR s)"
  using set_dropCR [of s] by (auto simp: quiet_def)

lemma scanTokens_quiet:
  "quiet pending \<Longrightarrow> list_all quiet (fst (scanTokens pending data))"
  by (induction pending data rule: scanTokens.induct)
     (auto simp: quiet_dropCR split: prod.splits)

lemma fileLines_quiet: "list_all quiet (fileLines data)"
  by (simp add: fileLines_def scanTokens_quiet)

text \<open>One line and its newline, in front of more text.\<close>

lemma scanTokens_line:
  "quiet l \<Longrightarrow>
   scanTokens pending (l @ CHR 0x0A # rest) =
     (if MaxScanTokenSize \<le> byteLen (pending @ l) then ([], True)
      else (dropCR (pending @ l) # fst (scanTokens [] rest), snd (scanTokens [] rest)))"
  by (induction l arbitrary: pending) (simp_all add: split_beta)

lemma scanTokens_last:
  "quiet l \<Longrightarrow>
   scanTokens pending l =
     (if pending @ l = [] then ([], False)
      else if MaxScanTokenSize \<le> byteLen (pending @ l) then ([], True)
      else ([dropCR (pending @ l)], False))"
  by (induction l arbitrary: pending) simp_all

lemma scanTokens_text:
  "list_all quiet out \<Longrightarrow>
   scanTokens [] (linesText out) =
     (if list_all fits out then (map dropCR out, False)
      else (map dropCR (takeWhile fits out), True))"
proof (induction out)
  case Nil
  show ?case by (simp add: linesText_def)
next
  case (Cons l out)
  then have q: "quiet l" and IH: "scanTokens [] (linesText out) =
     (if list_all fits out then (map dropCR out, False)
      else (map dropCR (takeWhile fits out), True))" by simp_all
  have "linesText (l # out) = l @ CHR 0x0A # linesText out" by (simp add: linesText_def)
  moreover have "fits l \<longleftrightarrow> \<not> MaxScanTokenSize \<le> byteLen l" by (auto simp: fits_def)
  ultimately show ?case
    using scanTokens_line [OF q, of "[]" "linesText out"] IH by simp
qed

lemma TrimSpace_dropCR: "TrimSpace (dropCR s) = TrimSpace s"
proof (cases "s \<noteq> [] \<and> last s = CHR 0x0D")
  case True
  then obtain t where s: "s = t @ [CHR 0x0D]" by (cases s rule: rev_cases) auto
  have cr: "isSpace (CHR 0x0D)" by (simp add: isSpace_def)
  have "TrimSpace (t @ [CHR 0x0D]) = TrimSpace t"
  proof (cases "\<forall>c \<in> set t. isSpace c")
    case True
    then have "\<forall>c \<in> set (t @ [CHR 0x0D]). isSpace c" using cr by simp
    then have "dropWhile isSpace (t @ [CHR 0x0D]) = []"
      by (simp only: dropWhile_eq_Nil_conv)
    moreover have "dropWhile isSpace t = []"
      using True by (simp only: dropWhile_eq_Nil_conv)
    ultimately show ?thesis by (simp only: TrimSpace_def)
  next
    case False
    then have "dropWhile isSpace (t @ [CHR 0x0D]) = dropWhile isSpace t @ [CHR 0x0D]"
      by (simp add: dropWhile_append)
    then show ?thesis using cr by (simp add: TrimSpace_def)
  qed
  then show ?thesis by (simp add: s dropCR_def)
next
  case False
  then show ?thesis by (auto simp: dropCR_def)
qed

lemma scanSteps_dropCR: "scanSteps (map dropCR ls) st = scanSteps ls st"
  by (induction ls arbitrary: st) (simp_all add: TrimSpace_dropCR)

lemma ParseConfig_dropCR:
  "ParseConfig (Opened (map dropCR ls) None) fp = ParseConfig (Opened ls None) fp"
  by (simp add: ParseConfig_Opened scanSteps_dropCR)

lemma ParseConfigFile_File:
  "ParseConfigFile (File data readErr) fp =
     (if tooLong data then Inl (ScanError ErrTooLong)
      else (case readErr of
              Some err \<Rightarrow> Inl (ScanError err)
            | None \<Rightarrow> ParseConfig (Opened (fileLines data) None) fp))"
proof -
  obtain ls long where s: "scanTokens [] data = (ls, long)" by (cases "scanTokens [] data")
  have ok: "\<exists>st. scanLoop ls 0 initState = Some st" by (simp add: scanLoop_init)
  show ?thesis
    using ok
    by (auto simp: ParseConfigFile_def scanFile_def ParseConfig_def s tooLong_def fileLines_def
        split: option.splits)
qed

lemma ParseConfigFile_text:
  assumes "list_all quiet out"
  shows "ParseConfigFile (File (linesText out) None) fp =
     (if list_all fits out then ParseConfig (Opened out None) fp
      else Inl (ScanError ErrTooLong))"
  using scanTokens_text [OF assms]
  by (auto simp: ParseConfigFile_File tooLong_def fileLines_def ParseConfig_dropCR)

lemma tooLong_scan:
  "snd (scanTokens pending data) \<longleftrightarrow>
     (\<exists>l b. data = l @ b \<and> quiet l \<and> MaxScanTokenSize \<le> byteLen (pending @ l)) \<or>
     (\<exists>a l b. data = a @ CHR 0x0A # l @ b \<and> quiet l \<and> MaxScanTokenSize \<le> byteLen l)"
proof (induction pending data rule: scanTokens.induct)
  case (1 pending)
  have "0 < MaxScanTokenSize" by (simp add: MaxScanTokenSize_def)
  then show ?case by auto
next
  case (2 pending c cs)
  show ?case
  proof (cases "c = CHR 0x0A")
    case True
    have a: "(\<exists>l b. c # cs = l @ b \<and> quiet l \<and> MaxScanTokenSize \<le> byteLen (pending @ l)) \<longleftrightarrow>
        MaxScanTokenSize \<le> byteLen pending"
      using True by (auto simp: Cons_eq_append_conv)
    have b: "(\<exists>a l b. c # cs = a @ CHR 0x0A # l @ b \<and> quiet l \<and> MaxScanTokenSize \<le> byteLen l) \<longleftrightarrow>
        (\<exists>l b. cs = l @ b \<and> quiet l \<and> MaxScanTokenSize \<le> byteLen l) \<or>
        (\<exists>a l b. cs = a @ CHR 0x0A # l @ b \<and> quiet l \<and> MaxScanTokenSize \<le> byteLen l)"
      using True by (auto simp: Cons_eq_append_conv)
    show ?thesis
      unfolding a b using 2(1) True by (auto simp: split_beta)
  next
    case False
    have a: "(\<exists>l b. c # cs = l @ b \<and> quiet l \<and> MaxScanTokenSize \<le> byteLen (pending @ l)) \<longleftrightarrow>
        (\<exists>l b. cs = l @ b \<and> quiet l \<and> MaxScanTokenSize \<le> byteLen ((pending @ [c]) @ l))"
    proof
      assume "\<exists>l b. c # cs = l @ b \<and> quiet l \<and> MaxScanTokenSize \<le> byteLen (pending @ l)"
      then obtain l b where e: "c # cs = l @ b" and q: "quiet l"
        and m: "MaxScanTokenSize \<le> byteLen (pending @ l)" by blast
      show "\<exists>l b. cs = l @ b \<and> quiet l \<and> MaxScanTokenSize \<le> byteLen ((pending @ [c]) @ l)"
      proof (cases l)
        case Nil
        have "cs = [] @ cs \<and> quiet [] \<and> MaxScanTokenSize \<le> byteLen ((pending @ [c]) @ [])"
          using m Nil by simp
        then show ?thesis by blast
      next
        case (Cons x l')
        with e have "x = c" "cs = l' @ b" by simp_all
        then show ?thesis using q m Cons by auto
      qed
    next
      assume "\<exists>l b. cs = l @ b \<and> quiet l \<and> MaxScanTokenSize \<le> byteLen ((pending @ [c]) @ l)"
      then obtain l b where "cs = l @ b" "quiet l"
        "MaxScanTokenSize \<le> byteLen ((pending @ [c]) @ l)" by blast
      then have "c # cs = (c # l) @ b \<and> quiet (c # l) \<and>
          MaxScanTokenSize \<le> byteLen (pending @ c # l)"
        using False by simp
      then show "\<exists>l b. c # cs = l @ b \<and> quiet l \<and> MaxScanTokenSize \<le> byteLen (pending @ l)"
        by blast
    qed
    have b: "(\<exists>a l b. c # cs = a @ CHR 0x0A # l @ b \<and> quiet l \<and> MaxScanTokenSize \<le> byteLen l) \<longleftrightarrow>
        (\<exists>a l b. cs = a @ CHR 0x0A # l @ b \<and> quiet l \<and> MaxScanTokenSize \<le> byteLen l)"
      using False by (auto simp: Cons_eq_append_conv)
    show ?thesis
      unfolding a b using 2(2) False by simp
  qed
qed

lemma quiet_cut: "quiet a \<or> (\<exists>a0 a2. a = a0 @ CHR 0x0A # a2 \<and> quiet a2)"
proof (cases "quiet a")
  case False
  then have "CHR 0x0A \<in> set a" by (simp add: quiet_def)
  from split_list_last [OF this] show ?thesis by (auto simp: quiet_def)
qed simp

lemma tooLong_iff:
  "tooLong data \<longleftrightarrow>
     (\<exists>a l b. data = a @ l @ b \<and> CHR 0x0A \<notin> set l \<and> MaxScanTokenSize \<le> byteLen l)"
proof
  assume "tooLong data"
  then consider l b where "data = l @ b" "quiet l" "MaxScanTokenSize \<le> byteLen l"
    | a l b where "data = a @ CHR 0x0A # l @ b" "quiet l" "MaxScanTokenSize \<le> byteLen l"
    unfolding tooLong_def tooLong_scan by auto
  then show "\<exists>a l b. data = a @ l @ b \<and> CHR 0x0A \<notin> set l \<and> MaxScanTokenSize \<le> byteLen l"
  proof cases
    case 1
    then have "data = [] @ l @ b \<and> CHR 0x0A \<notin> set l \<and> MaxScanTokenSize \<le> byteLen l"
      by (simp add: quiet_def)
    then show ?thesis by blast
  next
    case 2
    then have "data = (a @ [CHR 0x0A]) @ l @ b \<and> CHR 0x0A \<notin> set l \<and>
        MaxScanTokenSize \<le> byteLen l"
      by (simp add: quiet_def)
    then show ?thesis by blast
  qed
next
  assume "\<exists>a l b. data = a @ l @ b \<and> CHR 0x0A \<notin> set l \<and> MaxScanTokenSize \<le> byteLen l"
  then obtain a l b where d: "data = a @ l @ b" and q: "quiet l"
    and m: "MaxScanTokenSize \<le> byteLen l" by (auto simp: quiet_def)
  from quiet_cut [of a] show "tooLong data"
  proof
    assume "quiet a"
    then have "data = (a @ l) @ b \<and> quiet (a @ l) \<and> MaxScanTokenSize \<le> byteLen ([] @ a @ l)"
      using d q m by simp
    then show ?thesis unfolding tooLong_def tooLong_scan by blast
  next
    assume "\<exists>a0 a2. a = a0 @ CHR 0x0A # a2 \<and> quiet a2"
    then obtain a0 a2 where "a = a0 @ CHR 0x0A # a2" "quiet a2" by blast
    then have "data = a0 @ CHR 0x0A # (a2 @ l) @ b \<and> quiet (a2 @ l) \<and>
        MaxScanTokenSize \<le> byteLen (a2 @ l)"
      using d q m by simp
    then show ?thesis unfolding tooLong_def tooLong_scan by blast
  qed
qed

lemma byteLen_ascii: "\<forall>c \<in> set s. (of_char c :: nat) < 128 \<Longrightarrow> byteLen s = length s"
  by (induction s) simp_all

lemmas file_simps =
  ParseConfigFile_text fits_def MaxScanTokenSize_def

subsection \<open>The errors of the driver\<close>

text \<open>
  Claim C8, as the code has it. \<open>ParseConfig\<close> returns an error in three cases and no
  other: \<open>os.Open\<close> fails; a read of the file fails; or the file, though readable, has a
  line of 64 KiB or more, that is, a stretch of \<open>MaxScanTokenSize\<close> bytes with no newline,
  which the scanner refuses with \<open>ErrTooLong\<close>. In every other case it returns a Config
  and never panics: for every sequence of lines that the scanner delivers, the store is
  the one that the steps of the tree builder produce, whatever the lines hold. So an
  extra \<open>}\<close> is skipped, a block with no closing \<open>}\<close> is kept with the lines read into
  it, a quote left open runs to the end of the line, a directive with no \<open>;\<close> is a
  directive, and a directive may have no arguments.
\<close>

theorem ParseConfig_fails_on_open_or_scan:
  "ParseConfigFile (NoFile err) fp = Inl (OpenError err) \<and>
   ParseConfigFile (File data readErr) fp =
     (if tooLong data then Inl (ScanError ErrTooLong)
      else (case readErr of
              Some err \<Rightarrow> Inl (ScanError err)
            | None \<Rightarrow> Inr \<lparr>store = heap (scanSteps (fileLines data) initState),
                           RootBlock = 0, FilePath = fp\<rparr>)) \<and>
   (tooLong data \<longleftrightarrow>
      (\<exists>a l b. data = a @ l @ b \<and> CHR 0x0A \<notin> set l \<and> MaxScanTokenSize \<le> byteLen l)) \<and>
   ParseConfig (Opened ls None) fp =
     Inr \<lparr>store = heap (scanSteps ls initState), RootBlock = 0, FilePath = fp\<rparr> \<and>
   ParseConfigFile (File (linesText [''a;'', ''}'', ''b;'']) None) fp =
     Inr \<lparr>store = [\<lparr>bName = ''root'', bParams = [],
                     bLines = [\<lparr>lName = ''a'', lParams = [], lComments = [],
                               lType = LineTypeDirective\<rparr>,
                              \<lparr>lName = ''b'', lParams = [], lComments = [],
                               lType = LineTypeDirective\<rparr>],
                     bBlocks = [], bComments = [], bParentRef = None\<rparr>],
          RootBlock = 0, FilePath = fp\<rparr> \<and>
   ParseConfigFile (File (linesText [''http {'', ''x 1;'']) None) fp =
     Inr \<lparr>store = [\<lparr>bName = ''root'', bParams = [],
                     bLines = [\<lparr>lName = ''http'', lParams = [], lComments = [],
                               lType = LineTypeBlock\<rparr>],
                     bBlocks = [1], bComments = [], bParentRef = None\<rparr>,
                    \<lparr>bName = ''http'', bParams = [],
                     bLines = [\<lparr>lName = ''x'', lParams = [''1''], lComments = [],
                               lType = LineTypeDirective\<rparr>],
                     bBlocks = [], bComments = [], bParentRef = Some 0\<rparr>],
          RootBlock = 0, FilePath = fp\<rparr> \<and>
   ParseConfigFile (File (linesText [''a \"b; c;'']) None) fp =
     Inr \<lparr>store = [\<lparr>bName = ''root'', bParams = [],
                     bLines = [\<lparr>lName = ''a'', lParams = [''\"b;'', ''c;''], lComments = [],
                               lType = LineTypeDirective\<rparr>],
                     bBlocks = [], bComments = [], bParentRef = None\<rparr>],
          RootBlock = 0, FilePath = fp\<rparr> \<and>
   ParseConfigFile (File (linesText [''listen 80'']) None) fp =
     Inr \<lparr>store = [\<lparr>bName = ''root'', bParams = [],
                     bLines = [\<lparr>lName = ''listen'', lParams = [''80''], lComments = [],
                               lType = LineTypeDirective\<rparr>],
                     bBlocks = [], bComments = [], bParentRef = None\<rparr>],
          RootBlock = 0, FilePath = fp\<rparr> \<and>
   ParseConfigFile (File (linesText [''daemon;'']) None) fp =
     Inr \<lparr>store = [\<lparr>bName = ''root'', bParams = [],
                     bLines = [\<lparr>lName = ''daemon'', lParams = [], lComments = [],
                               lType = LineTypeDirective\<rparr>],
                     bBlocks = [], bComments = [], bParentRef = None\<rparr>],
          RootBlock = 0, FilePath = fp\<rparr>"
proof (intro conjI)
  show "ParseConfigFile (NoFile err) fp = Inl (OpenError err)"
    by (simp add: ParseConfigFile_def scanFile_def ParseConfig_def)
  show "ParseConfigFile (File data readErr) fp =
     (if tooLong data then Inl (ScanError ErrTooLong)
      else (case readErr of
              Some err \<Rightarrow> Inl (ScanError err)
            | None \<Rightarrow> Inr \<lparr>store = heap (scanSteps (fileLines data) initState),
                           RootBlock = 0, FilePath = fp\<rparr>))"
    by (simp add: ParseConfigFile_File ParseConfig_Opened split: option.splits)
  show "tooLong data \<longleftrightarrow>
      (\<exists>a l b. data = a @ l @ b \<and> CHR 0x0A \<notin> set l \<and> MaxScanTokenSize \<le> byteLen l)"
    by (rule tooLong_iff)
  show "ParseConfig (Opened ls None) fp =
     Inr \<lparr>store = heap (scanSteps ls initState), RootBlock = 0, FilePath = fp\<rparr>"
    by (rule ParseConfig_Opened)
qed (simp_all add: file_simps ParseConfig_Opened run_simps)

text \<open>
  Claim C8 as worded has \<open>ParseConfig\<close> fail on I/O errors only. A file that opens and
  reads without error and holds one line of 65536 bytes is refused with the scanner's
  \<open>ErrTooLong\<close>, also when lines were parsed before it; a line of 65535 bytes is not
  too long.
\<close>

theorem long_line_is_refused:
  "ParseConfigFile (File (replicate 65536 (CHR ''a'')) None) ''f'' =
     Inl (ScanError ErrTooLong) \<and>
   ParseConfigFile (File (linesText [''a;'', replicate 65536 (CHR ''a'')]) None) ''f'' =
     Inl (ScanError ErrTooLong) \<and>
   \<not> tooLong (replicate 65535 (CHR ''a''))"
proof -
  have q: "quiet (replicate n (CHR ''a''))" for n by (simp add: quiet_def)
  have b: "byteLen (replicate n (CHR ''a'')) = n" for n
    by (simp add: byteLen_ascii)
  have "tooLong (replicate 65536 (CHR ''a''))"
    unfolding tooLong_def scanTokens_last [OF q] by (simp add: b MaxScanTokenSize_def)
  then have 1: "ParseConfigFile (File (replicate 65536 (CHR ''a'')) None) ''f'' =
     Inl (ScanError ErrTooLong)" by (simp add: ParseConfigFile_File)
  have "list_all quiet [''a;'', replicate 65536 (CHR ''a'')]"
    "\<not> list_all fits [''a;'', replicate 65536 (CHR ''a'')]"
    using q [of 65536] b [of 65536] by (simp_all add: fits_def MaxScanTokenSize_def)
  then have 2: "ParseConfigFile (File (linesText [''a;'', replicate 65536 (CHR ''a'')]) None) ''f'' =
     Inl (ScanError ErrTooLong)"
    by (simp only: ParseConfigFile_text if_False)
  have 3: "\<not> tooLong (replicate 65535 (CHR ''a''))"
    unfolding tooLong_def scanTokens_last [OF q] by (simp add: b MaxScanTokenSize_def)
  from 1 2 3 show ?thesis by blast
qed

section \<open>Closing braces\<close>

text \<open>
  Claim C3. The input that is the single line \<open>}\<close> parses without failure to a root
  block with no lines and no children. In general, a line whose text after comment
  removal is exactly \<open>}\<close> takes the top off the stack when the stack holds more than
  the root, and changes nothing otherwise; and after any input the stack still starts
  with the root block.
\<close>

theorem stray_close_ignored:
  "ParseConfig (Opened [''}''] None) fp =
     Inr \<lparr>store = [\<lparr>bName = ''root'', bParams = [], bLines = [], bBlocks = [],
                     bComments = [], bParentRef = None\<rparr>],
          RootBlock = 0, FilePath = fp\<rparr> \<and>
   (\<forall>line comments cur st.
      splitComment line = Some (comments, ''}'') \<longrightarrow>
      parseLine line cur st =
        Some (if length (blockStack st) > 1 then st\<lparr>blockStack := butlast (blockStack st)\<rparr>
              else st)) \<and>
   (\<forall>ls. \<exists>st. scanLoop ls 0 initState = Some st \<and> blockStack st \<noteq> [] \<and>
        hd (blockStack st) = 0)"
proof (intro conjI allI impI)
  show "ParseConfig (Opened [''}''] None) fp =
     Inr \<lparr>store = [\<lparr>bName = ''root'', bParams = [], bLines = [], bBlocks = [],
                     bComments = [], bParentRef = None\<rparr>],
          RootBlock = 0, FilePath = fp\<rparr>"
    by (simp add: ParseConfig_Opened run_simps)
next
  fix line comments cur and st :: pstate
  assume c: "splitComment line = Some (comments, ''}'')"
  have pop: "length (blockStack st) > 1 \<Longrightarrow>
      sliceTo (blockStack st) (len (blockStack st) - 1) = Some (butlast (blockStack st))"
    by (rule sliceTo_butlast) auto
  show "parseLine line cur st =
        Some (if length (blockStack st) > 1 then st\<lparr>blockStack := butlast (blockStack st)\<rparr>
              else st)"
    unfolding parseLine_def c by (simp add: len_simps pop)
next
  fix ls
  show "\<exists>st. scanLoop ls 0 initState = Some st \<and> blockStack st \<noteq> [] \<and> hd (blockStack st) = 0"
    using stackOk_scanSteps [OF stackOk_init, of ls]
    by (simp add: scanLoop_init stackOk_def)
qed

theorem stray_close_ignored_witness:
  "splitComment ''} # end'' = Some ([''end''], ''}'') \<and>
   parseLine ''} # end'' 1 \<lparr>heap = [rootBlock, rootBlock], blockStack = [0, 1]\<rparr> =
     Some \<lparr>heap = [rootBlock, rootBlock], blockStack = [0]\<rparr> \<and>
   parseLine ''} # end'' 0 \<lparr>heap = [rootBlock], blockStack = [0]\<rparr> =
     Some \<lparr>heap = [rootBlock], blockStack = [0]\<rparr>"
proof -
  have c: "splitComment ''} # end'' = Some ([''end''], ''}'')"
    by (simp add: splitComment_eq run_simps)
  note r = stray_close_ignored [of "''f''", THEN conjunct2, THEN conjunct1, rule_format, OF c]
  show ?thesis
    using c r [of 1 "\<lparr>heap = [rootBlock, rootBlock], blockStack = [0, 1]\<rparr>"]
      r [of 0 "\<lparr>heap = [rootBlock], blockStack = [0]\<rparr>"]
    by simp
qed

text \<open>
  Claim C10. A line whose text after comment removal is not exactly \<open>}\<close> never takes
  a block off the stack: the stack after the line is the stack before it, followed by
  the blocks the line opened. So \<open>};\<close> is a directive named \<open>}\<close> with no arguments, also
  inside an open block, which stays open; and \<open>} name {\<close> opens a block named \<open>}\<close> with
  the argument \<open>name\<close>.
\<close>

theorem close_needs_exact_brace:
  "(\<forall>line comments rest cur st.
      splitComment line = Some (comments, rest) \<longrightarrow> rest \<noteq> ''}'' \<longrightarrow>
      cur < length (heap st) \<longrightarrow>
      (\<exists>st' new. parseLine line cur st = Some st' \<and> blockStack st' = blockStack st @ new)) \<and>
   ParseConfig (Opened [''};''] None) fp =
     Inr \<lparr>store = [\<lparr>bName = ''root'', bParams = [],
                     bLines = [\<lparr>lName = ''}'', lParams = [], lComments = [],
                               lType = LineTypeDirective\<rparr>],
                     bBlocks = [], bComments = [], bParentRef = None\<rparr>],
          RootBlock = 0, FilePath = fp\<rparr> \<and>
   ParseConfig (Opened [''} name {''] None) fp =
     Inr \<lparr>store = [\<lparr>bName = ''root'', bParams = [],
                     bLines = [\<lparr>lName = ''}'', lParams = [''name''], lComments = [],
                               lType = LineTypeBlock\<rparr>],
                     bBlocks = [1], bComments = [], bParentRef = None\<rparr>,
                    \<lparr>bName = ''}'', bParams = [''name''], bLines = [], bBlocks = [],
                     bComments = [], bParentRef = Some 0\<rparr>],
          RootBlock = 0, FilePath = fp\<rparr> \<and>
   ParseConfig (Opened [''a {'', ''};'', ''b 1;''] None) fp =
     Inr \<lparr>store = [\<lparr>bName = ''root'', bParams = [],
                     bLines = [\<lparr>lName = ''a'', lParams = [], lComments = [],
                               lType = LineTypeBlock\<rparr>],
                     bBlocks = [1], bComments = [], bParentRef = None\<rparr>,
                    \<lparr>bName = ''a'', bParams = [],
                     bLines = [\<lparr>lName = ''}'', lParams = [], lComments = [],
                               lType = LineTypeDirective\<rparr>,
                              \<lparr>lName = ''b'', lParams = [''1''], lComments = [],
                               lType = LineTypeDirective\<rparr>],
                     bBlocks = [], bComments = [], bParentRef = Some 0\<rparr>],
          RootBlock = 0, FilePath = fp\<rparr>"
proof (intro conjI allI impI)
  fix line comments rest cur and st :: pstate
  assume c: "splitComment line = Some (comments, rest)" and r: "rest \<noteq> ''}''"
    and cur: "cur < length (heap st)"
  have co: "commentOf line = (comments, rest)" using c by (simp add: splitComment_eq)
  have grow: "\<exists>new. blockStack (applyLines cur ls s) = blockStack s @ new" for ls s
  proof (induction ls arbitrary: s)
    case Nil
    show ?case by simp
  next
    case (Cons l ls)
    from Cons.IH [of "applyLine cur l s"] show ?case
      by (auto simp: stack_applyLine)
  qed
  have "\<exists>new. blockStack (lineStep line cur st) = blockStack st @ new"
    unfolding lineStep_def co Let_def fst_conv snd_conv using r grow by simp
  then show "\<exists>st' new. parseLine line cur st = Some st' \<and> blockStack st' = blockStack st @ new"
    by (simp add: parseLine_eq [OF cur])
qed (simp_all add: ParseConfig_Opened run_simps)

theorem close_needs_exact_brace_witness:
  "splitComment ''} name {'' = Some ([], ''} name {'') \<and> ''} name {'' \<noteq> ''}'' \<and>
   (0::nat) < length (heap initState) \<and>
   (\<exists>st' new. parseLine ''} name {'' 0 initState = Some st' \<and>
      blockStack st' = blockStack initState @ new)"
proof -
  have c: "splitComment ''} name {'' = Some ([], ''} name {'')"
    by (simp add: splitComment_eq run_simps)
  have n: "''} name {'' \<noteq> ''}''" by simp
  have h: "(0::nat) < length (heap initState)" by (simp add: initState_def)
  from close_needs_exact_brace [of "''f''", THEN conjunct1, rule_format, OF c n h] c n h
  show ?thesis by blast
qed

section \<open>What a line adds to the store\<close>

lemma applyLine_heap:
  assumes "cur < length (heap st)"
  shows "heap (applyLine cur l st) =
           (heap st)[cur := grown (length (heap st)) [l] (heap st ! cur)] @
           map (blockOf cur) (filter isBlockStart [l])"
proof (cases "lType l = LineTypeBlock")
  case True
  then have l: "\<lparr>lName = lName l, lParams = lParams l, lComments = lComments l,
                 lType = LineTypeBlock\<rparr> = l"
    by (cases l) simp
  show ?thesis
    using True assms
    by (simp add: applyLine_def openBlock_def l addLine_def addChild_def grown_def
        isBlockStart_def blockOf_def nth_append list_update_append1)
next
  case False
  then show ?thesis
    using assms by (simp add: applyLine_def addLine_def grown_def isBlockStart_def)
qed

lemma grown_grown:
  "grown (n + length (filter isBlockStart ls)) ms (grown n ls b) = grown n (ls @ ms) b"
proof -
  let ?k = "length (filter isBlockStart ls)" and ?j = "length (filter isBlockStart ms)"
  have "[n ..< n + ?k] @ [n + ?k ..< n + ?k + ?j] = [n ..< n + (?k + ?j)]"
    by (metis add.assoc le_add1 upt_add_eq_append)
  then show ?thesis by (simp add: grown_def)
qed

lemma applyLines_state:
  assumes "cur < length (heap st)"
  shows "heap (applyLines cur ls st) =
           (heap st)[cur := grown (length (heap st)) ls (heap st ! cur)] @
           map (blockOf cur) (filter isBlockStart ls) \<and>
         blockStack (applyLines cur ls st) =
           blockStack st @ [length (heap st) ..< length (heap st) + length (filter isBlockStart ls)]"
proof (induction ls rule: rev_induct)
  case Nil
  show ?case using assms by (simp add: grown_def list_update_same_conv)
next
  case (snoc l ls)
  let ?h = "heap st" and ?s = "applyLines cur ls st"
  let ?k = "length (filter isBlockStart ls)"
  from snoc have h: "heap ?s = ?h[cur := grown (length ?h) ls (?h ! cur)] @
                       map (blockOf cur) (filter isBlockStart ls)"
    and s: "blockStack ?s = blockStack st @ [length ?h ..< length ?h + ?k]" by auto
  have len: "length (heap ?s) = length ?h + ?k" by (simp add: h)
  have cur: "cur < length (heap ?s)" using assms by (simp add: len)
  have at: "heap ?s ! cur = grown (length ?h) ls (?h ! cur)"
    using assms by (simp add: h nth_append)
  have "heap (applyLine cur l ?s) =
          (heap ?s)[cur := grown (length (heap ?s)) [l] (heap ?s ! cur)] @
          map (blockOf cur) (filter isBlockStart [l])"
    using cur by (rule applyLine_heap)
  also have "grown (length (heap ?s)) [l] (heap ?s ! cur) = grown (length ?h) (ls @ [l]) (?h ! cur)"
    unfolding at len by (rule grown_grown)
  also have "(heap ?s)[cur := grown (length ?h) (ls @ [l]) (?h ! cur)] =
      ?h[cur := grown (length ?h) (ls @ [l]) (?h ! cur)] @ map (blockOf cur) (filter isBlockStart ls)"
    using assms by (simp add: h list_update_append1)
  finally have H: "heap (applyLines cur (ls @ [l]) st) =
      ?h[cur := grown (length ?h) (ls @ [l]) (?h ! cur)] @
      map (blockOf cur) (filter isBlockStart (ls @ [l]))"
    by (simp add: applyLines_append)
  have S: "blockStack (applyLines cur (ls @ [l]) st) =
      blockStack st @ [length ?h ..< length ?h + length (filter isBlockStart (ls @ [l]))]"
    by (simp add: applyLines_append stack_applyLine s len isBlockStart_def)
  from H S show ?case by simp
qed




lemma map_nth_append_upt:
  "map (\<lambda>p. f ((xs @ ys) ! p)) [length xs ..< length xs + length ys] = map f ys"
proof (rule nth_equalityI)
  show "length (map (\<lambda>p. f ((xs @ ys) ! p)) [length xs ..< length xs + length ys]) =
        length (map f ys)" by simp
next
  fix i
  assume "i < length (map (\<lambda>p. f ((xs @ ys) ! p)) [length xs ..< length xs + length ys])"
  then have "i < length ys" by simp
  then show "map (\<lambda>p. f ((xs @ ys) ! p)) [length xs ..< length xs + length ys] ! i =
             map f ys ! i" by (simp add: nth_append)
qed

lemma isBlockStart_eq: "isBlockStart = (\<lambda>l. lType l = LineTypeBlock)"
  by (simp add: fun_eq_iff isBlockStart_def)

lemma lineStep_comment_only:
  "snd (commentOf line) = [] \<Longrightarrow>
   lineStep line cur st =
     applyLines cur (if fst (commentOf line) \<noteq> [] then [commentLine (fst (commentOf line))] else []) st"
  by (simp add: lineStep_def Let_def applyLine_def commentLine_def)


lemma lineStep_heap:
  assumes "cur < length (heap st)"
  shows "heap (lineStep line cur st) =
           (heap st)[cur := grown (length (heap st)) (lineItems line) (heap st ! cur)] @
           map (blockOf cur) (filter isBlockStart (lineItems line))"
proof -
  have nil: "(heap st)[cur := grown (length (heap st)) [] (heap st ! cur)] = heap st"
    by (simp add: grown_def list_update_same_conv)
  show ?thesis
    using applyLines_state [OF assms, THEN conjunct1]
    by (simp add: lineStep_def lineItems_def Let_def nil applyLine_def commentLine_def
        isBlockStart_def grown_def addLine_def)
qed

section \<open>Comments\<close>



text \<open>
  Claim C1, on the code. The comment is cut at the first \<open>#\<close> of the line, which
  \<open>strings.Index\<close> finds without regard to quotes. The line
  \<open>alpha "b;c#d" gamma;\<close> therefore parses to the directive \<open>alpha\<close> with the single
  argument \<open>"b;c\<close> and the comment \<open>d" gamma;\<close>.
\<close>

theorem comment_cut_inside_quotes:
  "splitComment ''alpha \"b;c#d\" gamma;'' = Some ([''d\" gamma;''], ''alpha \"b;c'') \<and>
   ParseConfig (Opened [''alpha \"b;c#d\" gamma;''] None) fp =
     Inr \<lparr>store = [\<lparr>bName = ''root'', bParams = [],
                     bLines = [\<lparr>lName = ''alpha'', lParams = [''\"b;c''],
                               lComments = [''d\" gamma;''], lType = LineTypeDirective\<rparr>],
                     bBlocks = [], bComments = [], bParentRef = None\<rparr>],
          RootBlock = 0, FilePath = fp\<rparr>"
  by (simp add: splitComment_eq ParseConfig_Opened run_simps)

section \<open>The brace of a one-word block\<close>

text \<open>
  Claim C2, on the code. The trailing \<open>{\<close> is taken off the last word only when the
  fragment has more than one word. The one-word fragment \<open>server{\<close> opens a block
  whose name is \<open>server{\<close>, brace included, whereas \<open>location /api{\<close> opens the block
  \<open>location\<close> with the argument \<open>/api\<close>.
\<close>

theorem one_word_block_keeps_brace:
  "ParseConfig (Opened [''server{''] None) fp =
     Inr \<lparr>store = [\<lparr>bName = ''root'', bParams = [],
                     bLines = [\<lparr>lName = ''server{'', lParams = [], lComments = [],
                               lType = LineTypeBlock\<rparr>],
                     bBlocks = [1], bComments = [], bParentRef = None\<rparr>,
                    \<lparr>bName = ''server{'', bParams = [], bLines = [], bBlocks = [],
                     bComments = [], bParentRef = Some 0\<rparr>],
          RootBlock = 0, FilePath = fp\<rparr> \<and>
   ParseConfig (Opened [''location /api{''] None) fp =
     Inr \<lparr>store = [\<lparr>bName = ''root'', bParams = [],
                     bLines = [\<lparr>lName = ''location'', lParams = [''/api''], lComments = [],
                               lType = LineTypeBlock\<rparr>],
                     bBlocks = [1], bComments = [], bParentRef = None\<rparr>,
                    \<lparr>bName = ''location'', bParams = [''/api''], bLines = [], bBlocks = [],
                     bComments = [], bParentRef = Some 0\<rparr>],
          RootBlock = 0, FilePath = fp\<rparr>"
  by (simp add: ParseConfig_Opened run_simps)

section \<open>BlockStart lines and child blocks\<close>

lemma lineHead_eq: "lineHead = (\<lambda>l. (lName l, lParams l))"
  by (simp add: fun_eq_iff lineHead_def)

lemma blockHead_grown [simp]: "blockHead (grown n ls b) = blockHead b"
  by (simp add: blockHead_def grown_def)

lemma blockHead_blockOf [simp]: "blockHead (blockOf cur l) = lineHead l"
  by (simp add: blockHead_def blockOf_def lineHead_def)

lemma blockOk_extend:
  assumes ok: "blockOk h b" and cur: "cur < length h"
  shows "blockOk (h[cur := grown n ls (h ! cur)] @ nb) b"
proof -
  have "blockHead ((h[cur := grown n ls (h ! cur)] @ nb) ! c) = blockHead (h ! c)"
    if "c < length h" for c
    using that cur by (cases "c = cur") (simp_all add: nth_append)
  then show ?thesis
    using ok by (auto simp: blockOk_def list_all_iff)
qed

lemma blockOk_grown:
  assumes ok: "blockOk h (h ! cur)" and cur: "cur < length h"
  shows "blockOk (h[cur := grown (length h) ls (h ! cur)] @ map (blockOf cur) (filter isBlockStart ls))
           (grown (length h) ls (h ! cur))"
proof -
  let ?g = "h[cur := grown (length h) ls (h ! cur)]"
  let ?nb = "map (blockOf cur) (filter isBlockStart ls)"
  have old: "blockOk (?g @ ?nb) (h ! cur)" using ok cur by (rule blockOk_extend)
  have "map (\<lambda>c. blockHead ((?g @ ?nb) ! c)) [length ?g ..< length ?g + length ?nb] =
        map blockHead ?nb"
    by (rule map_nth_append_upt)
  then have new: "map (\<lambda>c. blockHead ((?g @ ?nb) ! c))
        [length h ..< length h + length (filter isBlockStart ls)] =
        map lineHead (filter isBlockStart ls)"
    by (simp add: comp_def)
  show ?thesis
    using old new by (auto simp: blockOk_def grown_def list_all_iff)
qed

lemma blockOk_blockOf: "blockOk h (blockOf cur l)"
  by (simp add: blockOk_def blockOf_def)

lemma shape_grow:
  assumes sh: "shape h" and cur: "cur < length h"
  shows "shape (h[cur := grown (length h) ls (h ! cur)] @ map (blockOf cur) (filter isBlockStart ls))"
proof -
  let ?g = "grown (length h) ls (h ! cur)"
  let ?h' = "h[cur := ?g] @ map (blockOf cur) (filter isBlockStart ls)"
  have okc: "blockOk h (h ! cur)" using sh cur by (simp add: shape_def list_all_length)
  have "blockOk ?h' b" if "b \<in> set ?h'" for b
  proof -
    from that consider "b \<in> set h" | "b = ?g" | "b \<in> set (map (blockOf cur) (filter isBlockStart ls))"
      using set_update_subset_insert [of h cur ?g] by auto
    then show ?thesis
    proof cases
      case 1
      then have "blockOk h b" using sh by (simp add: shape_def list_all_iff)
      then show ?thesis using cur by (rule blockOk_extend)
    next
      case 2
      then show ?thesis using blockOk_grown [OF okc cur, of ls] by simp
    next
      case 3
      then show ?thesis by (auto simp: blockOk_blockOf)
    qed
  qed
  then show ?thesis by (simp add: shape_def list_all_iff)
qed

lemma shape_lineStep:
  "shape (heap st) \<Longrightarrow> cur < length (heap st) \<Longrightarrow> shape (heap (lineStep line cur st))"
  by (simp add: lineStep_heap shape_grow)

lemma shape_scanSteps:
  "shape (heap st) \<Longrightarrow> stackOk st \<Longrightarrow> shape (heap (scanSteps ls st))"
  by (induction ls arbitrary: st) (simp_all add: shape_lineStep stackOk_lineStep stackOk_last)

lemma shape_init: "shape (heap initState)"
  by (simp add: shape_def initState_def blockOk_def rootBlock_def)

text \<open>
  Claim C4. In the store of every parsed Config, for every block, the entries of kind
  BlockStart among its lines and the entries of its children correspond one to one and
  in order, with equal names and arguments; every child is a block of the store.
\<close>

theorem block_lines_mirror_children:
  "ParseConfig src fp = Inr cfg \<longrightarrow>
   (\<forall>p < length (store cfg).
      map (\<lambda>l. (lName l, lParams l))
        (filter (\<lambda>l. lType l = LineTypeBlock) (bLines (store cfg ! p))) =
      map (\<lambda>c. (bName (store cfg ! c), bParams (store cfg ! c))) (bBlocks (store cfg ! p)) \<and>
      (\<forall>c \<in> set (bBlocks (store cfg ! p)). c < length (store cfg)))"
proof (intro impI allI)
  fix p
  assume r: "ParseConfig src fp = Inr cfg" and p: "p < length (store cfg)"
  from r obtain ls where cfg: "store cfg = heap (scanSteps ls initState)"
    by (auto simp: ParseConfig_def scanLoop_init split: source.splits option.splits)
  have "shape (store cfg)"
    unfolding cfg using shape_init stackOk_init by (rule shape_scanSteps)
  then have "blockOk (store cfg) (store cfg ! p)"
    using p by (simp add: shape_def list_all_length)
  then show "map (\<lambda>l. (lName l, lParams l))
        (filter (\<lambda>l. lType l = LineTypeBlock) (bLines (store cfg ! p))) =
      map (\<lambda>c. (bName (store cfg ! c), bParams (store cfg ! c))) (bBlocks (store cfg ! p)) \<and>
      (\<forall>c \<in> set (bBlocks (store cfg ! p)). c < length (store cfg))"
    by (simp add: blockOk_def isBlockStart_eq lineHead_eq blockHead_def list_all_iff)
qed

theorem block_lines_mirror_children_witness:
  "\<exists>cfg. ParseConfig (Opened [''http {'', ''server {'', ''}'', ''gzip on;'', ''}''] None) ''f'' = Inr cfg \<and>
     1 < length (store cfg) \<and>
     map (\<lambda>l. (lName l, lParams l))
       (filter (\<lambda>l. lType l = LineTypeBlock) (bLines (store cfg ! 1))) =
     map (\<lambda>c. (bName (store cfg ! c), bParams (store cfg ! c))) (bBlocks (store cfg ! 1)) \<and>
     2 \<in> set (bBlocks (store cfg ! 1)) \<and> 2 < length (store cfg)"
proof -
  let ?ls = "[''http {'', ''server {'', ''}'', ''gzip on;'', ''}'']"
  let ?cfg = "\<lparr>store = heap (scanSteps ?ls initState), RootBlock = 0, FilePath = ''f''\<rparr>"
  have r: "ParseConfig (Opened ?ls None) ''f'' = Inr ?cfg" by (rule ParseConfig_Opened)
  have p: "1 < length (store ?cfg)" by (simp add: run_simps)
  have c: "2 \<in> set (bBlocks (store ?cfg ! 1))" by (simp add: run_simps)
  note t = block_lines_mirror_children [of "Opened ?ls None" "''f''" ?cfg, rule_format, OF r p]
  from t [THEN conjunct1] t [THEN conjunct2, rule_format, OF c] r p c
  show ?thesis by blast
qed

section \<open>The fragments of the splitter\<close>

lemma trimRight_Nil [simp]: "trimRight [] = []"
  by (simp add: trimRight_def)

lemma trimRight_Cons:
  "trimRight (x # xs) = (if trimRight xs = [] \<and> isSpace x then [] else x # trimRight xs)"
  by (auto simp: trimRight_def dropWhile_append)

lemma TrimSpace_trimRight: "TrimSpace s = trimRight (dropWhile isSpace s)"
  by (simp add: TrimSpace_def trimRight_def)

lemma trimRight_snoc: "\<not> isSpace c \<Longrightarrow> trimRight (s @ [c]) = s @ [c]"
  by (simp add: trimRight_def)

lemma trimRight_decomp: "\<exists>t. s = trimRight s @ t \<and> (\<forall>c \<in> set t. isSpace c)"
proof (induction s)
  case Nil
  show ?case by simp
next
  case (Cons x xs)
  then obtain t where t: "trimRight xs @ t = xs" "\<forall>c \<in> set t. isSpace c" by metis
  show ?case
  proof (cases "trimRight xs = [] \<and> isSpace x")
    case True
    then have "t = xs" using t(1) by simp
    then have "x # xs = trimRight (x # xs) @ (x # t)" "\<forall>c \<in> set (x # t). isSpace c"
      using True t(2) by (simp_all add: trimRight_Cons)
    then show ?thesis by blast
  next
    case False
    then have "trimRight (x # xs) = x # trimRight xs" by (auto simp: trimRight_Cons)
    then have "x # xs = trimRight (x # xs) @ t"
      using t(1) by simp
    then show ?thesis using t(2) by blast
  qed
qed

lemma trimRight_last: "trimRight s \<noteq> [] \<Longrightarrow> \<not> isSpace (last (trimRight s))"
  by (induction s) (auto simp: trimRight_Cons split: if_splits)

lemma trimRight_hd: "trimRight s \<noteq> [] \<Longrightarrow> hd (trimRight s) = hd s"
  by (cases s) (auto simp: trimRight_Cons split: if_splits)

lemma trimRight_id: "s = [] \<or> \<not> isSpace (last s) \<Longrightarrow> trimRight s = s"
  by (cases s rule: rev_cases) (auto simp: trimRight_snoc)

lemma TrimSpace_ends:
  "TrimSpace s \<noteq> [] \<Longrightarrow> \<not> isSpace (hd (TrimSpace s)) \<and> \<not> isSpace (last (TrimSpace s))"
proof -
  assume ne: "TrimSpace s \<noteq> []"
  have d: "dropWhile isSpace s \<noteq> []"
  proof
    assume "dropWhile isSpace s = []"
    then have "TrimSpace s = []" by (simp only: TrimSpace_trimRight trimRight_Nil)
    with ne show False by simp
  qed
  then have "\<not> isSpace (hd (dropWhile isSpace s))" by (rule hd_dropWhile)
  then show ?thesis
    using ne trimRight_hd [of "dropWhile isSpace s"] trimRight_last [of "dropWhile isSpace s"]
    by (simp add: TrimSpace_trimRight)
qed

lemma TrimSpace_id: "s = [] \<or> (\<not> isSpace (hd s) \<and> \<not> isSpace (last s)) \<Longrightarrow> TrimSpace s = s"
proof (cases s)
  case Nil
  then show ?thesis by (simp add: TrimSpace_def)
next
  case (Cons x xs)
  assume "s = [] \<or> (\<not> isSpace (hd s) \<and> \<not> isSpace (last s))"
  then have "dropWhile isSpace s = s" "\<not> isSpace (last s)" using Cons by auto
  then show ?thesis by (simp add: TrimSpace_trimRight trimRight_id)
qed

lemma TrimSpace_idem: "TrimSpace (TrimSpace s) = TrimSpace s"
  using TrimSpace_ends [of s] by (intro TrimSpace_id) blast

lemma TrimSpace_decomp:
  "\<exists>a b. s = a @ TrimSpace s @ b \<and> (\<forall>c \<in> set a. isSpace c) \<and> (\<forall>c \<in> set b. isSpace c)"
proof -
  obtain t where t: "dropWhile isSpace s = trimRight (dropWhile isSpace s) @ t"
      "\<forall>c \<in> set t. isSpace c"
    using trimRight_decomp by blast
  have "s = takeWhile isSpace s @ dropWhile isSpace s" by simp
  then have "s = takeWhile isSpace s @ TrimSpace s @ t"
    using t(1) by (simp add: TrimSpace_trimRight)
  moreover have "\<forall>c \<in> set (takeWhile isSpace s). isSpace c"
    by (auto dest: set_takeWhileD)
  ultimately show ?thesis using t(2) by blast
qed

lemma TrimSpace_snoc: "\<not> isSpace c \<Longrightarrow> TrimSpace (s @ [c]) = dropWhile isSpace s @ [c]"
  by (simp add: TrimSpace_trimRight dropWhile_append trimRight_snoc) (simp add: trimRight_def)

lemma quoteStep_space: "isSpace c \<Longrightarrow> quoteStep c q = q"
proof -
  assume "isSpace c"
  then have "c \<noteq> CHR 0x27" "c \<noteq> CHR 0x22" by (auto simp: isSpace_def)
  then show ?thesis by (simp add: quoteStep_def)
qed

lemma quoteScan_spaces: "\<forall>c \<in> set s. isSpace c \<Longrightarrow> quoteScan s q = q"
  by (induction s arbitrary: q) (simp_all add: quoteStep_space)

lemma quoteScan_append: "quoteScan (s @ t) q = quoteScan t (quoteScan s q)"
  by (induction s arbitrary: q) simp_all

lemma unquotedOcc_append:
  "unquotedOcc x (s @ t) q \<longleftrightarrow> unquotedOcc x s q \<or> unquotedOcc x t (quoteScan s q)"
  by (induction s arbitrary: q) auto

lemma unquotedOcc_spaces: "\<forall>c \<in> set s. isSpace c \<Longrightarrow> \<not> isSpace x \<Longrightarrow> \<not> unquotedOcc x s q"
  by (induction s arbitrary: q) (auto simp: quoteStep_space)

lemma unquotedOcc_TrimSpace:
  assumes "\<not> isSpace x"
  shows "unquotedOcc x (TrimSpace s) q \<longleftrightarrow> unquotedOcc x s q"
proof -
  obtain a b where s: "s = a @ TrimSpace s @ b" and a: "\<forall>c \<in> set a. isSpace c"
    and b: "\<forall>c \<in> set b. isSpace c"
    using TrimSpace_decomp by blast
  have "unquotedOcc x s q \<longleftrightarrow> unquotedOcc x (a @ TrimSpace s @ b) q" using s by simp
  also have "\<dots> \<longleftrightarrow> unquotedOcc x (TrimSpace s) q"
    using a b assms by (simp add: unquotedOcc_append unquotedOcc_spaces quoteScan_spaces)
  finally show ?thesis by simp
qed

lemma unquotedOcc_butlast: "unquotedOcc x (butlast s) q \<Longrightarrow> unquotedOcc x s q"
proof (cases s rule: rev_cases)
  case Nil
  then show "unquotedOcc x (butlast s) q \<Longrightarrow> unquotedOcc x s q" by simp
next
  case (snoc ys y)
  then show "unquotedOcc x (butlast s) q \<Longrightarrow> unquotedOcc x s q"
    by (simp add: unquotedOcc_append)
qed

lemma not_space_semi: "\<not> isSpace (CHR '';'')" "\<not> isSpace (CHR ''{'')"
  by (simp_all add: isSpace_def)

lemma fragmentOk_TrimSpace:
  assumes "\<not> unquotedOcc (CHR '';'') s noQuote" "\<not> unquotedOcc (CHR ''{'') s noQuote"
  shows "fragmentOk (TrimSpace s)"
  using assms unquotedOcc_butlast [of "CHR ''{''" "TrimSpace s" noQuote]
  by (auto simp: fragmentOk_def unquotedOcc_TrimSpace not_space_semi TrimSpace_idem)

lemma fragmentOk_brace:
  assumes "\<not> unquotedOcc (CHR '';'') s noQuote" "\<not> unquotedOcc (CHR ''{'') s noQuote"
  shows "fragmentOk (TrimSpace (s @ ''{''))"
proof -
  have 1: "\<not> unquotedOcc (CHR '';'') (s @ ''{'') noQuote"
    using assms by (simp add: unquotedOcc_append)
  have "butlast (TrimSpace (s @ ''{'')) = dropWhile isSpace s"
    by (simp add: TrimSpace_snoc not_space_semi)
  moreover have "unquotedOcc (CHR ''{'') (dropWhile isSpace s) noQuote \<Longrightarrow>
      unquotedOcc (CHR ''{'') s noQuote"
  proof -
    assume u: "unquotedOcc (CHR ''{'') (dropWhile isSpace s) noQuote"
    have "s = takeWhile isSpace s @ dropWhile isSpace s" by simp
    moreover have "quoteScan (takeWhile isSpace s) noQuote = noQuote"
      by (rule quoteScan_spaces) (auto dest: set_takeWhileD)
    ultimately show ?thesis
      using u unquotedOcc_append [of "CHR ''{''" "takeWhile isSpace s" "dropWhile isSpace s" noQuote]
      by simp
  qed
  ultimately show ?thesis
    using 1 assms by (auto simp: fragmentOk_def unquotedOcc_TrimSpace not_space_semi TrimSpace_idem)
qed

lemma splitLoop_keep:
  "\<not> (c = CHR '';'' \<and> \<not> inQuote) \<Longrightarrow> \<not> (c = CHR ''{'' \<and> \<not> inQuote) \<Longrightarrow>
   splitLoop (c # cs) results current inQuote quoteMark =
     splitLoop cs results (current @ [c]) (fst (quoteStep c (inQuote, quoteMark)))
       (snd (quoteStep c (inQuote, quoteMark)))"
  by (auto simp: quoteStep_def)

lemma splitLoop_semi:
  "\<not> inQuote \<Longrightarrow>
   splitLoop (CHR '';'' # cs) results current inQuote quoteMark =
     splitLoop cs (results @ [TrimSpace current]) [] inQuote quoteMark"
  by simp

lemma splitLoop_brace:
  "\<not> inQuote \<Longrightarrow>
   splitLoop (CHR ''{'' # cs) results current inQuote quoteMark =
     results @ [TrimSpace (current @ ''{'')]"
  by simp

lemma quoteStep_mark:
  "\<not> fst q \<longrightarrow> snd q = CHR 0x00 \<Longrightarrow> \<not> fst (quoteStep c q) \<longrightarrow> snd (quoteStep c q) = CHR 0x00"
  by (auto simp: quoteStep_def)

lemma splitLoop_fragments:
  assumes "\<forall>f \<in> set results. fragmentOk f"
    and "quoteScan current noQuote = (inQuote, quoteMark)"
    and "\<not> unquotedOcc (CHR '';'') current noQuote"
    and "\<not> unquotedOcc (CHR ''{'') current noQuote"
    and "\<not> inQuote \<longrightarrow> quoteMark = CHR 0x00"
  shows "\<forall>f \<in> set (splitLoop cs results current inQuote quoteMark). fragmentOk f"
  using assms
proof (induction cs arbitrary: results current inQuote quoteMark)
  case Nil
  then show ?case by (auto simp: fragmentOk_TrimSpace)
next
  case (Cons c cs)
  let ?q = "quoteStep c (inQuote, quoteMark)"
  have occ: "unquotedOcc x (current @ [c]) noQuote \<longleftrightarrow>
      unquotedOcc x current noQuote \<or> (c = x \<and> \<not> inQuote)" for x
    using Cons.prems(2) by (simp add: unquotedOcc_append)
  consider (semi) "c = CHR '';''" "\<not> inQuote" | (brace) "c = CHR ''{''" "\<not> inQuote"
    | (keep) "\<not> (c = CHR '';'' \<and> \<not> inQuote)" "\<not> (c = CHR ''{'' \<and> \<not> inQuote)"
    by blast
  then show ?case
  proof cases
    case semi
    have "\<forall>f \<in> set (splitLoop cs (results @ [TrimSpace current]) [] inQuote quoteMark).
        fragmentOk f"
    proof (rule Cons.IH)
      show "\<forall>f \<in> set (results @ [TrimSpace current]). fragmentOk f"
        using Cons.prems by (auto simp: fragmentOk_TrimSpace)
      show "quoteScan [] noQuote = (inQuote, quoteMark)"
        using semi Cons.prems(5) by (simp add: noQuote_def)
    qed (use Cons.prems(5) in simp_all)
    then show ?thesis using semi by simp
  next
    case brace
    have "fragmentOk (TrimSpace (current @ ''{''))"
      using Cons.prems(3,4) by (rule fragmentOk_brace)
    then show ?thesis
      using brace Cons.prems(1) by auto
  next
    case keep
    have "\<forall>f \<in> set (splitLoop cs results (current @ [c]) (fst ?q) (snd ?q)). fragmentOk f"
    proof (rule Cons.IH)
      show "\<forall>f \<in> set results. fragmentOk f" by (rule Cons.prems(1))
      show "quoteScan (current @ [c]) noQuote = (fst ?q, snd ?q)"
        using Cons.prems(2) by (simp add: quoteScan_append)
      show "\<not> unquotedOcc (CHR '';'') (current @ [c]) noQuote"
        using keep Cons.prems(3) by (simp add: occ)
      show "\<not> unquotedOcc (CHR ''{'') (current @ [c]) noQuote"
        using keep Cons.prems(4) by (simp add: occ)
      show "\<not> fst ?q \<longrightarrow> snd ?q = CHR 0x00"
        using Cons.prems(5) by (intro quoteStep_mark) simp
    qed
    then show ?thesis using keep by (simp add: splitLoop_keep del: splitLoop.simps)
  qed
qed

lemma splitDirectives_fragments: "\<forall>f \<in> set (splitDirectives line). fragmentOk f"
  unfolding splitDirectives_def
  by (rule splitLoop_fragments) (simp_all add: noQuote_def)

lemma splitLoop_prefix:
  "\<not> unquotedOcc (CHR ''{'') pre (inQuote, quoteMark) \<Longrightarrow>
   \<exists>results' current'. \<forall>rest.
     splitLoop (pre @ rest) results current inQuote quoteMark =
       splitLoop rest results' current' (fst (quoteScan pre (inQuote, quoteMark)))
         (snd (quoteScan pre (inQuote, quoteMark)))"
proof (induction pre arbitrary: results current inQuote quoteMark)
  case Nil
  show ?case by auto
next
  case (Cons c cs)
  let ?q = "quoteStep c (inQuote, quoteMark)"
  from Cons.prems have nb: "\<not> (c = CHR ''{'' \<and> \<not> inQuote)"
    and tl: "\<not> unquotedOcc (CHR ''{'') cs (fst ?q, snd ?q)" by simp_all
  show ?case
  proof (cases "c = CHR '';'' \<and> \<not> inQuote")
    case True
    then have q: "?q = (inQuote, quoteMark)" by (simp add: quoteStep_def)
    from tl have "\<not> unquotedOcc (CHR ''{'') cs (inQuote, quoteMark)" by (simp add: q)
    from Cons.IH [OF this, of "results @ [TrimSpace current]" "[]"] True
    show ?thesis by (simp add: quoteStep_def)
  next
    case False
    from Cons.IH [OF tl, of results "current @ [c]"] False nb
    show ?thesis by (simp add: splitLoop_keep del: splitLoop.simps)
  qed
qed

lemma splitLoop_plain:
  "\<not> unquotedOcc (CHR '';'') pre (inQuote, quoteMark) \<Longrightarrow>
   \<not> unquotedOcc (CHR ''{'') pre (inQuote, quoteMark) \<Longrightarrow>
   splitLoop (pre @ rest) results current inQuote quoteMark =
     splitLoop rest results (current @ pre) (fst (quoteScan pre (inQuote, quoteMark)))
       (snd (quoteScan pre (inQuote, quoteMark)))"
proof (induction pre arbitrary: current inQuote quoteMark)
  case Nil
  show ?case by simp
next
  case (Cons c cs)
  let ?q = "quoteStep c (inQuote, quoteMark)"
  from Cons.prems have k: "\<not> (c = CHR '';'' \<and> \<not> inQuote)" "\<not> (c = CHR ''{'' \<and> \<not> inQuote)"
    and t: "\<not> unquotedOcc (CHR '';'') cs (fst ?q, snd ?q)"
      "\<not> unquotedOcc (CHR ''{'') cs (fst ?q, snd ?q)" by simp_all
  from Cons.IH [OF t, of "current @ [c]"] k show ?case
    by (simp add: splitLoop_keep del: splitLoop.simps)
qed

lemma HasSuffix_snoc: "HasSuffix (s @ [c]) [c]"
  by (simp add: HasSuffix_def)

lemma quoteScan_mark:
  "\<not> fst q \<longrightarrow> snd q = CHR 0x00 \<Longrightarrow>
   \<not> fst (quoteScan s q) \<longrightarrow> snd (quoteScan s q) = CHR 0x00"
  by (induction s arbitrary: q) (simp_all add: quoteStep_mark)

lemma quoteScan_noQuote: "\<not> fst (quoteScan s noQuote) \<Longrightarrow> quoteScan s noQuote = noQuote"
  using quoteScan_mark [of noQuote s] by (simp add: noQuote_def prod_eq_iff)

lemma splitLoop_closed:
  "\<not> unquotedOcc (CHR ''{'') s (inQuote, quoteMark) \<Longrightarrow>
   \<not> fst (quoteScan s (inQuote, quoteMark)) \<Longrightarrow>
   splitLoop (s @ CHR '';'' # rest) results current inQuote quoteMark =
     splitLoop rest (splitLoop (s @ '';'') results current inQuote quoteMark) [] False
       (snd (quoteScan s (inQuote, quoteMark)))"
proof (induction s arbitrary: results current inQuote quoteMark)
  case Nil
  then show ?case by simp
next
  case (Cons c cs)
  let ?q = "quoteStep c (inQuote, quoteMark)"
  from Cons.prems have nb: "\<not> (c = CHR ''{'' \<and> \<not> inQuote)"
    and tl: "\<not> unquotedOcc (CHR ''{'') cs (fst ?q, snd ?q)"
    and nq: "\<not> fst (quoteScan cs (fst ?q, snd ?q))" by simp_all
  show ?case
  proof (cases "c = CHR '';'' \<and> \<not> inQuote")
    case True
    then have q: "?q = (inQuote, quoteMark)" by (simp add: quoteStep_def)
    from tl nq have "\<not> unquotedOcc (CHR ''{'') cs (inQuote, quoteMark)"
      "\<not> fst (quoteScan cs (inQuote, quoteMark))" by (simp_all add: q)
    from Cons.IH [OF this, of "results @ [TrimSpace current]" "[]"] True
    show ?thesis by (simp add: quoteStep_def)
  next
    case False
    from Cons.IH [OF tl nq, of results "current @ [c]"] False nb
    show ?thesis by (simp add: splitLoop_keep del: splitLoop.simps)
  qed
qed

lemma splitDirectives_front:
  assumes nb: "\<not> unquotedOcc (CHR ''{'') front noQuote"
    and cut: "front = [] \<or> (last front = CHR '';'' \<and> \<not> fst (quoteScan (butlast front) noQuote))"
  shows "splitDirectives (front @ rest) = splitLoop rest (splitDirectives front) [] False (CHR 0x00)"
proof (cases "front = []")
  case True
  then show ?thesis by (simp add: splitDirectives_def)
next
  case False
  with cut obtain s where f: "front = s @ '';''" and nq: "\<not> fst (quoteScan s noQuote)"
    by (cases front rule: rev_cases) auto
  from nb have nbs: "\<not> unquotedOcc (CHR ''{'') s (False, CHR 0x00)"
    by (simp add: f unquotedOcc_append noQuote_def)
  from nq have nqs: "\<not> fst (quoteScan s (False, CHR 0x00))" by (simp add: noQuote_def)
  have m: "snd (quoteScan s (False, CHR 0x00)) = CHR 0x00"
    using quoteScan_noQuote [OF nq] by (simp add: noQuote_def)
  show ?thesis
    unfolding f splitDirectives_def using splitLoop_closed [OF nbs nqs, of rest "[]" "[]"]
    by (simp add: m)
qed

lemma quoteScan_front:
  "front = [] \<or> (last front = CHR '';'' \<and> \<not> fst (quoteScan (butlast front) noQuote)) \<Longrightarrow>
   quoteScan front noQuote = noQuote"
proof (cases front rule: rev_cases)
  case Nil
  then show ?thesis by simp
next
  case (snoc s c)
  assume "front = [] \<or> (last front = CHR '';'' \<and> \<not> fst (quoteScan (butlast front) noQuote))"
  with snoc have c: "c = CHR '';''" and nq: "\<not> fst (quoteScan s noQuote)" by simp_all
  show ?thesis using quoteScan_noQuote [OF nq]
    by (simp add: snoc c quoteScan_append quoteStep_def)
qed

lemma splitDirectives_brace_cut:
  assumes nb: "\<not> unquotedOcc (CHR ''{'') (front @ cur) noQuote"
    and nq: "\<not> fst (quoteScan (front @ cur) noQuote)"
    and cut: "front = [] \<or> (last front = CHR '';'' \<and> \<not> fst (quoteScan (butlast front) noQuote))"
    and ns: "\<not> unquotedOcc (CHR '';'') cur noQuote"
  shows "splitDirectives (front @ cur @ ''{'' @ post) =
           splitDirectives front @ [TrimSpace (cur @ ''{'')]"
proof -
  have qf: "quoteScan front noQuote = noQuote" using cut by (rule quoteScan_front)
  from nb have nbf: "\<not> unquotedOcc (CHR ''{'') front noQuote"
    and nbc: "\<not> unquotedOcc (CHR ''{'') cur (False, CHR 0x00)"
    by (simp_all add: unquotedOcc_append qf) (simp add: noQuote_def)
  from ns have nsc: "\<not> unquotedOcc (CHR '';'') cur (False, CHR 0x00)" by (simp add: noQuote_def)
  from nq have qc: "\<not> fst (quoteScan cur (False, CHR 0x00))"
    by (simp add: quoteScan_append qf) (simp add: noQuote_def)
  have "splitDirectives (front @ cur @ ''{'' @ post) =
          splitLoop (cur @ ''{'' @ post) (splitDirectives front) [] False (CHR 0x00)"
    using splitDirectives_front [OF nbf cut] by simp
  also have "\<dots> = splitLoop (''{'' @ post) (splitDirectives front) cur False
                     (snd (quoteScan cur (False, CHR 0x00)))"
    using splitLoop_plain [OF nsc nbc, of "''{'' @ post" "splitDirectives front" "[]"] qc
    by simp
  also have "\<dots> = splitDirectives front @ [TrimSpace (cur @ ''{'')]" by simp
  finally show ?thesis .
qed

text \<open>Every prefix can be cut in this way: after its last \<open>;\<close> outside quotes.\<close>

lemma prefix_cut_exists:
  "\<exists>front cur. pre = front @ cur \<and>
     (front = [] \<or> (last front = CHR '';'' \<and> \<not> fst (quoteScan (butlast front) noQuote))) \<and>
     \<not> unquotedOcc (CHR '';'') cur noQuote"
proof (induction pre rule: rev_induct)
  case Nil
  show ?case by simp
next
  case (snoc c pre)
  then obtain front cur where p: "pre = front @ cur"
    and cut: "front = [] \<or> (last front = CHR '';'' \<and> \<not> fst (quoteScan (butlast front) noQuote))"
    and ns: "\<not> unquotedOcc (CHR '';'') cur noQuote" by blast
  have qf: "quoteScan front noQuote = noQuote" using cut by (rule quoteScan_front)
  show ?case
  proof (cases "c = CHR '';'' \<and> \<not> fst (quoteScan pre noQuote)")
    case True
    have "pre @ [c] = (pre @ [c]) @ []" by simp
    moreover have "last (pre @ [c]) = CHR '';'' \<and> \<not> fst (quoteScan (butlast (pre @ [c])) noQuote)"
      using True by simp
    ultimately show ?thesis by (metis unquotedOcc.simps(1))
  next
    case False
    have "\<not> unquotedOcc (CHR '';'') (cur @ [c]) noQuote"
      using ns False by (auto simp: unquotedOcc_append p quoteScan_append qf)
    moreover have "pre @ [c] = front @ (cur @ [c])" by (simp add: p)
    ultimately show ?thesis using cut by blast
  qed
qed

text \<open>
  Claim C6. Let a line have an unquoted \<open>{\<close> with no unquoted \<open>{\<close> before it. Then the
  fragments are those of the line cut after that \<open>{\<close>, whatever follows it; the last
  fragment ends with the \<open>{\<close>; and the fragments before the last are those a \<open>;\<close> in the
  place of the \<open>{\<close> would have closed. More precisely, cut the text before the \<open>{\<close>
  after its last unquoted \<open>;\<close>, into \<open>front\<close> and \<open>cur\<close>: the fragments are those of
  \<open>front\<close>, followed by one last fragment, which is \<open>cur\<close> with the \<open>{\<close> appended,
  trimmed.
\<close>

theorem split_stops_at_brace:
  "\<not> unquotedOcc (CHR ''{'') pre noQuote \<longrightarrow> \<not> fst (quoteScan pre noQuote) \<longrightarrow>
     splitDirectives (pre @ ''{'' @ post) = splitDirectives (pre @ ''{'') \<and>
     splitDirectives (pre @ ''{'' @ post) \<noteq> [] \<and>
     HasSuffix (last (splitDirectives (pre @ ''{'' @ post))) ''{'' \<and>
     butlast (splitDirectives (pre @ ''{'' @ post)) = butlast (splitDirectives (pre @ '';'')) \<and>
     (\<forall>front cur.
        pre = front @ cur \<longrightarrow>
        (front = [] \<or>
         (last front = CHR '';'' \<and> \<not> fst (quoteScan (butlast front) noQuote))) \<longrightarrow>
        \<not> unquotedOcc (CHR '';'') cur noQuote \<longrightarrow>
        splitDirectives (pre @ ''{'' @ post) =
          splitDirectives front @ [TrimSpace (cur @ ''{'')])"
proof (intro impI)
  assume nb: "\<not> unquotedOcc (CHR ''{'') pre noQuote" and nq: "\<not> fst (quoteScan pre noQuote)"
  from nb have "\<not> unquotedOcc (CHR ''{'') pre (False, CHR 0x00)" by (simp add: noQuote_def)
  from splitLoop_prefix [OF this, of "[]" "[]"]
  obtain rs cur where run: "\<And>rest. splitDirectives (pre @ rest) =
      splitLoop rest rs cur False (snd (quoteScan pre noQuote))"
    using nq by (auto simp: splitDirectives_def noQuote_def)
  have a: "splitDirectives (pre @ ''{'' @ post) = rs @ [TrimSpace (cur @ ''{'')]"
    by (simp add: run)
  have b: "splitDirectives (pre @ ''{'') = rs @ [TrimSpace (cur @ ''{'')]"
    by (simp add: run)
  have c: "splitDirectives (pre @ '';'') = rs @ [TrimSpace cur]"
    by (simp add: run)
  have "TrimSpace (cur @ ''{'') = dropWhile isSpace cur @ ''{''"
    by (rule TrimSpace_snoc) (simp add: isSpace_def)
  then have d: "HasSuffix (TrimSpace (cur @ ''{'')) ''{''"
    by (simp add: HasSuffix_snoc)
  have e: "\<forall>front cur.
        pre = front @ cur \<longrightarrow>
        (front = [] \<or>
         (last front = CHR '';'' \<and> \<not> fst (quoteScan (butlast front) noQuote))) \<longrightarrow>
        \<not> unquotedOcc (CHR '';'') cur noQuote \<longrightarrow>
        splitDirectives (pre @ ''{'' @ post) =
          splitDirectives front @ [TrimSpace (cur @ ''{'')]"
  proof (intro allI impI)
    fix front cu
    assume p: "pre = front @ cu"
      and cut: "front = [] \<or>
         (last front = CHR '';'' \<and> \<not> fst (quoteScan (butlast front) noQuote))"
      and ns: "\<not> unquotedOcc (CHR '';'') cu noQuote"
    from splitDirectives_brace_cut [OF nb [unfolded p] nq [unfolded p] cut ns, of post]
    show "splitDirectives (pre @ ''{'' @ post) =
          splitDirectives front @ [TrimSpace (cu @ ''{'')]"
      by (simp add: p)
  qed
  have f: "splitDirectives (pre @ ''{'' @ post) = splitDirectives (pre @ ''{'') \<and>
     splitDirectives (pre @ ''{'' @ post) \<noteq> [] \<and>
     HasSuffix (last (splitDirectives (pre @ ''{'' @ post))) ''{'' \<and>
     butlast (splitDirectives (pre @ ''{'' @ post)) = butlast (splitDirectives (pre @ '';''))"
    unfolding a b c using d by simp
  from f e show "splitDirectives (pre @ ''{'' @ post) = splitDirectives (pre @ ''{'') \<and>
     splitDirectives (pre @ ''{'' @ post) \<noteq> [] \<and>
     HasSuffix (last (splitDirectives (pre @ ''{'' @ post))) ''{'' \<and>
     butlast (splitDirectives (pre @ ''{'' @ post)) = butlast (splitDirectives (pre @ '';'')) \<and>
     (\<forall>front cur.
        pre = front @ cur \<longrightarrow>
        (front = [] \<or>
         (last front = CHR '';'' \<and> \<not> fst (quoteScan (butlast front) noQuote))) \<longrightarrow>
        \<not> unquotedOcc (CHR '';'') cur noQuote \<longrightarrow>
        splitDirectives (pre @ ''{'' @ post) =
          splitDirectives front @ [TrimSpace (cur @ ''{'')])"
    by (intro conjI) (rule conjunct1, assumption, rule conjunct2 [THEN conjunct1], assumption,
      rule conjunct2 [THEN conjunct2, THEN conjunct1], assumption,
      rule conjunct2 [THEN conjunct2, THEN conjunct2], assumption)
qed

theorem split_stops_at_brace_witness:
  "\<not> unquotedOcc (CHR ''{'') ''a 1; server '' noQuote \<and>
   \<not> fst (quoteScan ''a 1; server '' noQuote) \<and>
   ''a 1; server '' = ''a 1;'' @ '' server '' \<and>
   last ''a 1;'' = CHR '';'' \<and> \<not> fst (quoteScan (butlast ''a 1;'') noQuote) \<and>
   \<not> unquotedOcc (CHR '';'') '' server '' noQuote \<and>
   splitDirectives ''a 1;'' = [''a 1''] \<and>
   TrimSpace ('' server '' @ ''{'') = ''server {'' \<and>
   splitDirectives (''a 1; server '' @ ''{'' @ '' listen 80; }'') = [''a 1'', ''server {''] \<and>
   splitDirectives (''a 1; server '' @ ''{'') = [''a 1'', ''server {''] \<and>
   splitDirectives (''a 1; server '' @ '';'') = [''a 1'', ''server'']"
proof -
  have h1: "\<not> unquotedOcc (CHR ''{'') ''a 1; server '' noQuote"
    by (simp add: noQuote_def quoteStep_def)
  have h2: "\<not> fst (quoteScan ''a 1; server '' noQuote)"
    by (simp add: noQuote_def quoteStep_def)
  have h3: "''a 1; server '' = ''a 1;'' @ '' server ''" by simp
  have h4: "''a 1;'' = [] \<or>
      (last ''a 1;'' = CHR '';'' \<and> \<not> fst (quoteScan (butlast ''a 1;'') noQuote))"
    by (simp add: noQuote_def quoteStep_def)
  have h5: "\<not> unquotedOcc (CHR '';'') '' server '' noQuote"
    by (simp add: noQuote_def quoteStep_def)
  have u: "splitDirectives ''a 1;'' = [''a 1'']" by (simp add: run_simps)
  have t: "TrimSpace ('' server '' @ ''{'') = ''server {''" by (simp add: run_simps)
  have w: "splitDirectives (''a 1; server '' @ '';'') = [''a 1'', ''server'']"
    by (simp add: run_simps)
  note r = split_stops_at_brace [of "''a 1; server ''" "'' listen 80; }''", rule_format, OF h1 h2]
  from r have a: "splitDirectives (''a 1; server '' @ ''{'' @ '' listen 80; }'') =
        splitDirectives (''a 1; server '' @ ''{'')" by blast
  from r have "\<forall>front cur.
        ''a 1; server '' = front @ cur \<longrightarrow>
        (front = [] \<or>
         (last front = CHR '';'' \<and> \<not> fst (quoteScan (butlast front) noQuote))) \<longrightarrow>
        \<not> unquotedOcc (CHR '';'') cur noQuote \<longrightarrow>
        splitDirectives (''a 1; server '' @ ''{'' @ '' listen 80; }'') =
          splitDirectives front @ [TrimSpace (cur @ ''{'')]" by blast
  from this [rule_format, OF h3 h4 h5]
  have b: "splitDirectives (''a 1; server '' @ ''{'' @ '' listen 80; }'') =
        splitDirectives ''a 1;'' @ [TrimSpace ('' server '' @ ''{'')]" .
  from h4 have h4': "last ''a 1;'' = CHR '';'' \<and> \<not> fst (quoteScan (butlast ''a 1;'') noQuote)"
    by simp
  from a b h1 h2 h4' h5 show ?thesis unfolding u t w by simp
qed




section \<open>Printing and parsing again\<close>

subsection \<open>Words, joins and printed lines\<close>

lemma fieldsFrom_word:
  "list_all (\<lambda>c. \<not> isSpace c) w \<Longrightarrow> fieldsFrom u (w @ s) = fieldsFrom (u @ w) s"
  by (induction w arbitrary: u) simp_all

lemma Fields_word_space: "wordOk w \<Longrightarrow> isSpace c \<Longrightarrow> Fields (w @ c # s) = w # Fields s"
  by (simp add: Fields_def wordOk_def fieldsFrom_word)

lemma Fields_word: "wordOk w \<Longrightarrow> Fields w = [w]"
  using fieldsFrom_word [of w "[]" "[]"] by (simp add: Fields_def wordOk_def)

lemma isSpace_blank [simp]: "isSpace (CHR '' '')"
  by (simp add: isSpace_def)

lemma Join_Cons: "Join (x # xs) sep = x @ (if xs = [] then [] else sep @ Join xs sep)"
  by (cases xs) simp_all

lemma Join_snoc: "xs \<noteq> [] \<Longrightarrow> Join (xs @ [x]) sep = Join xs sep @ sep @ x"
  by (induction xs sep rule: Join.induct) simp_all

lemma Fields_Join: "list_all wordOk ws \<Longrightarrow> Fields (Join ws '' '') = ws"
proof (induction ws "'' ''" rule: Join.induct)
  case 1
  show ?case by (simp add: Fields_def)
next
  case (2 x)
  then show ?case by (simp add: Fields_word)
next
  case (3 x y ys)
  then show ?case by (simp add: Fields_word_space)
qed

lemma fieldsFrom_words:
  "list_all (\<lambda>c. \<not> isSpace c) u \<Longrightarrow> list_all wordOk (fieldsFrom u s)"
  by (induction s arbitrary: u) (simp_all add: wordOk_def)

lemma Fields_words: "list_all wordOk (Fields s)"
  by (simp add: Fields_def fieldsFrom_words)

lemma concat_fieldsFrom: "concat (fieldsFrom u s) = u @ filter (\<lambda>c. \<not> isSpace c) s"
  by (induction s arbitrary: u) simp_all

lemma concat_Fields: "concat (Fields s) = filter (\<lambda>c. \<not> isSpace c) s"
  by (simp add: Fields_def concat_fieldsFrom)

lemma filter_Join:
  "filter (\<lambda>c. \<not> isSpace c) (Join ws '' '') = filter (\<lambda>c. \<not> isSpace c) (concat ws)"
  by (induction ws "'' ''" rule: Join.induct) simp_all

lemma filter_word: "list_all wordOk ws \<Longrightarrow> filter (\<lambda>c. \<not> isSpace c) (concat ws) = concat ws"
  by (induction ws) (auto simp: wordOk_def list_all_iff filter_id_conv)

lemma fieldsFrom_Nil_iff: "fieldsFrom u s = [] \<longleftrightarrow> u = [] \<and> (\<forall>c \<in> set s. isSpace c)"
  by (induction s arbitrary: u) auto

lemma Fields_Nil_iff: "Fields s = [] \<longleftrightarrow> (\<forall>c \<in> set s. isSpace c)"
  by (simp add: Fields_def fieldsFrom_Nil_iff)

lemma fieldsFrom_snoc:
  "\<not> isSpace c \<Longrightarrow>
   fieldsFrom u (s @ [c]) =
     (if (s = [] \<and> u = []) \<or> (s \<noteq> [] \<and> isSpace (last s)) then fieldsFrom u s @ [[c]]
      else butlast (fieldsFrom u s) @ [last (fieldsFrom u s) @ [c]])"
proof (induction s arbitrary: u)
  case Nil
  then show ?case by simp
next
  case (Cons x xs)
  show ?case
  proof (cases "isSpace x")
    case True
    then show ?thesis
      using Cons.IH [OF Cons.prems, of "[]"]
      by (auto simp: butlast_append fieldsFrom_Nil_iff dest: last_in_set)
  next
    case False
    then show ?thesis
      using Cons.IH [OF Cons.prems, of "u @ [x]"] by auto
  qed
qed

lemma Fields_snoc:
  "\<not> isSpace c \<Longrightarrow>
   Fields (s @ [c]) =
     (if s = [] \<or> isSpace (last s) then Fields s @ [[c]]
      else butlast (Fields s) @ [last (Fields s) @ [c]])"
  using fieldsFrom_snoc [of c "[]" s] by (auto simp: Fields_def)

lemma quoteScan_filter: "quoteScan (filter (\<lambda>c. \<not> isSpace c) s) q = quoteScan s q"
  by (induction s arbitrary: q) (simp_all add: quoteStep_space)

lemma unquotedOcc_filter:
  "\<not> isSpace x \<Longrightarrow> unquotedOcc x (filter (\<lambda>c. \<not> isSpace c) s) q = unquotedOcc x s q"
  by (induction s arbitrary: q) (auto simp: quoteStep_space)

lemma TrimSpace_indent: "\<forall>c \<in> set ind. isSpace c \<Longrightarrow> TrimSpace (ind @ s) = TrimSpace s"
  by (simp add: TrimSpace_def)

lemma trimRight_keep: "\<not> isSpace c \<Longrightarrow> trimRight (a @ c # b) = a @ c # trimRight b"
  by (induction a) (simp_all add: trimRight_Cons)

lemma Repeat_spaces: "\<forall>c \<in> set (Repeat ''  '' n). isSpace c"
  by (induction n) (simp_all add: Repeat_def)

lemma printHeader_eq:
  "printHeader ind b = headerStr ind (bName b) (bParams b) (bComments b)"
  by (cases "bParams b") (simp_all add: printHeader_def headerStr_def Let_def len_def)

lemma printLine_eq:
  "printLine ind l =
     ind @ ''  '' @ (if lParams l = [] then lName l else Join (lName l # lParams l) '' '') @
     (if lType l \<noteq> LineTypeComment then '';'' else []) @
     (if lComments l = [] then [] else '' # '' @ Join (lComments l) '' '')"
  by (cases "lParams l") (simp_all add: printLine_def Let_def len_def)

lemma set_TrimSpace: "set (TrimSpace s) \<subseteq> set s"
proof -
  obtain a b where "s = a @ TrimSpace s @ b" using TrimSpace_decomp by blast
  then have "set s = set a \<union> set (TrimSpace s) \<union> set b" by (metis set_append Un_assoc)
  then show ?thesis by blast
qed

lemma trimRight_space: "isSpace c \<Longrightarrow> trimRight (s @ [c]) = trimRight s"
  by (simp add: trimRight_def)

lemma TrimSpace_space: "isSpace c \<Longrightarrow> TrimSpace (s @ [c]) = TrimSpace s"
proof (cases "\<forall>x \<in> set s. isSpace x")
  case True
  assume "isSpace c"
  with True have "dropWhile isSpace (s @ [c]) = []" "dropWhile isSpace s = []" by simp_all
  then show ?thesis by (simp only: TrimSpace_trimRight)
next
  case False
  assume "isSpace c"
  with False show ?thesis
    by (auto simp: TrimSpace_trimRight dropWhile_append trimRight_space)
qed

lemma commentOf_plain: "CHR ''#'' \<notin> set s \<Longrightarrow> commentOf s = ([], s)"
  by (simp add: commentOf_def)

lemma not_space_hash: "\<not> isSpace (CHR ''#'')"
  by (simp add: isSpace_def)

lemma TrimSpace_marked:
  "TrimSpace (B @ CHR ''#'' # X) = dropWhile isSpace B @ CHR ''#'' # trimRight X"
  by (simp add: TrimSpace_trimRight dropWhile_append3 not_space_hash trimRight_keep)

lemma commentOf_marked:
  assumes "CHR ''#'' \<notin> set B"
  shows "snd (commentOf (TrimSpace (B @ CHR ''#'' # X))) = TrimSpace B"
    and "fst (commentOf (TrimSpace (B @ CHR ''#'' # X))) \<noteq> []"
proof -
  have n: "CHR ''#'' \<notin> set (dropWhile isSpace B)"
    using assms by (auto dest: set_dropWhileD)
  then have "\<And>x. x \<in> set (dropWhile isSpace B) \<Longrightarrow> x \<noteq> CHR ''#''" by blast
  then have "takeWhile (\<lambda>c. c \<noteq> CHR ''#'') (dropWhile isSpace B @ CHR ''#'' # trimRight X) =
      dropWhile isSpace B"
    by (simp add: takeWhile_append2)
  moreover have "TrimSpace (dropWhile isSpace B) = TrimSpace B"
    by (simp add: TrimSpace_def)
  ultimately show "snd (commentOf (TrimSpace (B @ CHR ''#'' # X))) = TrimSpace B"
    and "fst (commentOf (TrimSpace (B @ CHR ''#'' # X))) \<noteq> []"
    by (simp_all add: TrimSpace_marked commentOf_def)
qed

text \<open>The printed form: a body without \<open>#\<close>, then the comment if there is one.\<close>

lemma commentOf_printed:
  assumes "CHR ''#'' \<notin> set B"
  shows "snd (commentOf (TrimSpace (B @ (if cs = [] then [] else '' # '' @ Join cs '' '')))) =
           TrimSpace B"
proof (cases "cs = []")
  case True
  have "CHR ''#'' \<notin> set (TrimSpace B)" using assms set_TrimSpace by blast
  then show ?thesis using True by (simp add: commentOf_plain)
next
  case False
  have "CHR ''#'' \<notin> set (B @ '' '')" using assms by simp
  from commentOf_marked(1) [OF this, of "'' '' @ Join cs '' ''"] False
  show ?thesis by (simp add: TrimSpace_space)
qed

lemma commentOf_printed_some:
  "CHR ''#'' \<notin> set B \<Longrightarrow> cs \<noteq> [] \<Longrightarrow>
   fst (commentOf (TrimSpace (B @ '' # '' @ Join cs '' ''))) \<noteq> []"
  using commentOf_marked(2) [of "B @ '' ''" "'' '' @ Join cs '' ''"] by simp

lemma set_Join: "set (Join ws '' '') \<subseteq> set (concat ws) \<union> {CHR '' ''}"
  by (induction ws "'' ''" rule: Join.induct) auto

lemma Join_nonempty: "ws \<noteq> [] \<Longrightarrow> last ws \<noteq> [] \<Longrightarrow> Join ws sep \<noteq> []"
  by (induction ws sep rule: Join.induct) auto

lemma last_Join: "ws \<noteq> [] \<Longrightarrow> last ws \<noteq> [] \<Longrightarrow> last (Join ws sep) = last (last ws)"
proof (induction ws sep rule: Join.induct)
  case (3 x y ys sep)
  then have "Join (y # ys) sep \<noteq> []" by (intro Join_nonempty) auto
  then show ?case using 3 by (simp add: last_append)
qed simp_all

lemma hd_Join: "ws \<noteq> [] \<Longrightarrow> hd ws \<noteq> [] \<Longrightarrow> hd (Join ws sep) = hd (hd ws)"
  by (cases ws) (simp_all add: Join_Cons)

lemma last_concat: "ws \<noteq> [] \<Longrightarrow> last ws \<noteq> [] \<Longrightarrow> last (concat ws) = last (last ws)"
proof (induction ws)
  case (Cons a ws)
  show ?case
  proof (cases "ws = []")
    case False
    then have "concat ws \<noteq> []" using Cons.prems by (auto dest: last_in_set)
    moreover have "last (concat ws) = last (last ws)" using False Cons by simp
    ultimately show ?thesis using False by (simp add: last_append del: concat_eq_Nil_conv)
  qed simp
qed simp

text \<open>The text of good words, joined by single blanks.\<close>

lemma joined_text:
  assumes "textGood ws"
  shows "Join ws '' '' \<noteq> []" and "\<not> isSpace (hd (Join ws '' ''))"
    and "\<not> isSpace (last (Join ws '' ''))"
    and "CHR ''#'' \<notin> set (Join ws '' '')" and "Fields (Join ws '' '') = ws"
    and "last (Join ws '' '') = last (concat ws)"
    and "\<And>x q. \<not> isSpace x \<Longrightarrow> unquotedOcc x (Join ws '' '') q = unquotedOcc x (concat ws) q"
    and "\<And>q. quoteScan (Join ws '' '') q = quoteScan (concat ws) q"
proof -
  from assms have ne: "ws \<noteq> []" and ok: "list_all wordOk ws"
    and nh: "CHR ''#'' \<notin> set (concat ws)" by (simp_all add: textGood_def)
  from ne ok have h: "wordOk (hd ws)" and l: "wordOk (last ws)"
    by (simp_all add: list_all_iff)
  show f: "Fields (Join ws '' '') = ws" using ok by (rule Fields_Join)
  show n: "Join ws '' '' \<noteq> []"
    using ne h by (cases ws) (auto simp: Join_Cons wordOk_def)
  show "\<not> isSpace (hd (Join ws '' ''))"
    using ne h by (simp add: hd_Join wordOk_def list_all_iff)
  show "\<not> isSpace (last (Join ws '' ''))"
    using ne l by (simp add: last_Join wordOk_def list_all_iff)
  show "CHR ''#'' \<notin> set (Join ws '' '')" using nh set_Join [of ws] by auto
  show "last (Join ws '' '') = last (concat ws)"
    using ne l by (simp add: last_Join last_concat wordOk_def)
  have fl: "filter (\<lambda>c. \<not> isSpace c) (Join ws '' '') = concat ws"
    using ok by (simp add: filter_Join filter_word)
  show "unquotedOcc x (Join ws '' '') q = unquotedOcc x (concat ws) q" if "\<not> isSpace x" for x q
    using unquotedOcc_filter [OF that, of "Join ws '' ''" q] by (simp add: fl)
  show "quoteScan (Join ws '' '') q = quoteScan (concat ws) q" for q
    using quoteScan_filter [of "Join ws '' ''" q] by (simp add: fl)
qed

lemma printLine_indent: "printLine ind l = ind @ printLine [] l"
  by (simp add: printLine_eq)

lemma headerStr_indent: "headerStr ind n ps cs = ind @ headerStr [] n ps cs"
  by (simp add: headerStr_def)

lemma not_space_brace: "\<not> isSpace (CHR ''{'')" "\<not> isSpace (CHR '';'')"
  by (simp_all add: isSpace_def)

subsection \<open>A printed line parses to its Line\<close>

lemma reline_comment:
  "lType l = LineTypeComment \<Longrightarrow> lName l = [] \<Longrightarrow> lParams l = [] \<Longrightarrow>
   commentLine c = l\<lparr>lComments := c\<rparr>"
  by (cases l) (simp add: commentLine_def)

lemma reparse_comment_line:
  assumes good: "lineGood l" and ty: "lType l = LineTypeComment"
    and ind: "\<forall>c \<in> set ind. isSpace c"
  shows "TrimSpace (printLine ind l) \<noteq> [] \<and>
         snd (commentOf (TrimSpace (printLine ind l))) \<noteq> ''}'' \<and>
         lineItems (TrimSpace (printLine ind l)) = [reline l]"
proof -
  from good ty have n: "lName l = []" and p: "lParams l = []" and c: "lComments l \<noteq> []"
    by (simp_all add: lineGood_def)
  let ?T = "TrimSpace (printLine [] l)"
  have T: "TrimSpace (printLine ind l) = ?T"
    using ind by (subst printLine_indent) (rule TrimSpace_indent)
  have pl: "printLine [] l = ''  '' @ '' # '' @ Join (lComments l) '' ''"
    using n p c ty by (simp add: printLine_eq)
  have nh: "CHR ''#'' \<notin> set ''  ''" by simp
  have s: "snd (commentOf ?T) = []"
    using commentOf_printed [OF nh, of "lComments l"] c by (simp add: pl TrimSpace_def)
  have f: "fst (commentOf ?T) \<noteq> []"
    using commentOf_printed_some [OF nh c] by (simp add: pl)
  have ne: "?T \<noteq> []"
    using f by (auto simp: commentOf_def)
  have "lineItems ?T = [commentLine (fst (commentOf ?T))]"
    using s f by (simp add: lineItems_def Let_def)
  also have "\<dots> = [reline l]"
    using reline_comment [OF ty n p] by (simp add: reline_def)
  finally show ?thesis using ne s by (simp add: T)
qed

lemma reline_plain:
  "lType l = (if lName l = ''include'' then LineTypeInclude else LineTypeDirective) \<Longrightarrow>
   plainLine (lName l # lParams l) c = l\<lparr>lComments := c\<rparr>"
  by (cases l) (simp add: plainLine_def)

lemma reparse_directive_line:
  assumes good: "lineGood l" and ty: "lType l \<noteq> LineTypeBlock" "lType l \<noteq> LineTypeComment"
    and closed: "quotesClosed l" and ind: "\<forall>c \<in> set ind. isSpace c"
  shows "TrimSpace (printLine ind l) \<noteq> [] \<and>
         snd (commentOf (TrimSpace (printLine ind l))) \<noteq> ''}'' \<and>
         lineItems (TrimSpace (printLine ind l)) = [reline l]"
proof -
  let ?ws = "lName l # lParams l"
  let ?W = "Join ?ws '' ''"
  from good ty have tg: "textGood ?ws"
    and nb: "\<not> unquotedOcc (CHR ''{'') (concat ?ws) noQuote"
    and lb: "last (concat ?ws) \<noteq> CHR ''{''"
    and lt: "lType l = (if lName l = ''include'' then LineTypeInclude else LineTypeDirective)"
    by (simp_all add: lineGood_def)
  note jt = joined_text [OF tg]
  from tg have ns: "\<not> unquotedOcc (CHR '';'') (concat ?ws) noQuote" by (simp add: textGood_def)
  have W1: "\<not> unquotedOcc (CHR '';'') ?W (False, CHR 0x00)"
    using ns jt(7) [of "CHR '';''" noQuote] by (simp add: not_space_brace noQuote_def)
  have W2: "\<not> unquotedOcc (CHR ''{'') ?W (False, CHR 0x00)"
    using nb jt(7) [of "CHR ''{''" noQuote] by (simp add: not_space_brace noQuote_def)
  have W3: "\<not> fst (quoteScan ?W (False, CHR 0x00))"
    using closed ty by (simp add: quotesClosed_def noQuote_def)
  have W4: "TrimSpace ?W = ?W" using jt(1,2,3) by (intro TrimSpace_id) simp
  have W5: "last ?W \<noteq> CHR ''{''" using lb jt(6) by simp
  let ?T = "TrimSpace (printLine [] l)"
  have T: "TrimSpace (printLine ind l) = ?T"
    using ind by (subst printLine_indent) (rule TrimSpace_indent)
  have pl: "printLine [] l = (''  '' @ ?W @ '';'') @
      (if lComments l = [] then [] else '' # '' @ Join (lComments l) '' '')"
    using ty by (cases "lParams l") (simp_all add: printLine_eq)
  have nh: "CHR ''#'' \<notin> set (''  '' @ ?W @ '';'')" using jt(4) by simp
  have tb: "TrimSpace (''  '' @ ?W @ '';'') = ?W @ '';''"
  proof -
    have "TrimSpace (''  '' @ (?W @ '';'')) = TrimSpace (?W @ '';'')"
      by (rule TrimSpace_indent) simp
    also have "\<dots> = ?W @ '';''"
      using jt(1,2) by (intro TrimSpace_id) (simp add: not_space_brace)
    finally show ?thesis by simp
  qed
  have s: "snd (commentOf ?T) = ?W @ '';''"
    unfolding pl using commentOf_printed [OF nh, of "lComments l"] by (simp only: tb)
  have ne: "?T \<noteq> []"
  proof
    assume "?T = []"
    then have "snd (commentOf ?T) = []" by (simp add: commentOf_def)
    with s show False by simp
  qed
  have r: "?W @ '';'' \<noteq> ''}''" using jt(1) by (cases ?W) auto
  have "splitDirectives (?W @ '';'') =
      splitLoop '';'' [] ([] @ ?W) (fst (quoteScan ?W (False, CHR 0x00)))
        (snd (quoteScan ?W (False, CHR 0x00)))"
    unfolding splitDirectives_def using W1 W2 by (rule splitLoop_plain)
  then have sp: "splitDirectives (?W @ '';'') = [?W]"
    using W3 W4 by simp
  have fl: "fragmentLine ?W c = Some (plainLine ?ws c)" for c
    using W4 W5 jt(1,5) by (simp add: fragmentLine_def Let_def)
  have "lineItems ?T = [plainLine ?ws (fst (commentOf ?T))]"
    using s r by (simp add: lineItems_def Let_def sp fl del: Join.simps)
  also have "\<dots> = [reline l]"
    using reline_plain [OF lt] by (simp add: reline_def)
  finally show ?thesis using ne s r by (simp add: T del: Join.simps)
qed

lemma reparse_line:
  assumes "lineGood l" and "lType l \<noteq> LineTypeBlock" and "quotesClosed l"
    and "\<forall>c \<in> set ind. isSpace c"
  shows "TrimSpace (printLine ind l) \<noteq> [] \<and>
         snd (commentOf (TrimSpace (printLine ind l))) \<noteq> ''}'' \<and>
         lineItems (TrimSpace (printLine ind l)) = [reline l]"
  using assms reparse_comment_line reparse_directive_line by blast

lemma blockParamsOf_braced:
  "ws \<noteq> [] \<Longrightarrow> blockParamsOf (ws @ [''{'']) = tl ws"
  by (cases ws) (simp_all add: blockParamsOf_def butlast_append)

lemma reparse_header:
  assumes good: "headGood n ps" and ind: "\<forall>c \<in> set ind. isSpace c"
  shows "TrimSpace (headerStr ind n ps cs) \<noteq> [] \<and>
         snd (commentOf (TrimSpace (headerStr ind n ps cs))) \<noteq> ''}'' \<and>
         lineItems (TrimSpace (headerStr ind n ps cs)) = [rehead n ps cs]"
proof -
  let ?ws = "n # ps"
  let ?W = "Join ?ws '' ''"
  let ?R = "?W @ '' {''"
  from good have tg: "textGood ?ws" by (simp add: headGood_def)
  note jt = joined_text [OF tg]
  from tg have ns: "\<not> unquotedOcc (CHR '';'') (concat ?ws) noQuote"
    and ok: "list_all wordOk ?ws" by (simp_all add: textGood_def)
  have W1: "\<not> unquotedOcc (CHR '';'') ?W (False, CHR 0x00)"
    using ns jt(7) [of "CHR '';''" noQuote] by (simp add: not_space_brace noQuote_def)
  let ?T = "TrimSpace (headerStr [] n ps cs)"
  have T: "TrimSpace (headerStr ind n ps cs) = ?T"
    using ind by (subst headerStr_indent) (rule TrimSpace_indent)
  have hs: "headerStr [] n ps cs = ?R @ (if cs = [] then [] else '' # '' @ Join cs '' '')"
    by (simp add: headerStr_def)
  have nh: "CHR ''#'' \<notin> set ?R" using jt(4) by simp
  have tb: "TrimSpace ?R = ?R"
    using jt(1,2) by (intro TrimSpace_id) (simp add: not_space_brace)
  have s: "snd (commentOf ?T) = ?R"
    unfolding hs using commentOf_printed [OF nh, of cs] by (simp only: tb)
  have ne: "?T \<noteq> []"
  proof
    assume "?T = []"
    then have "snd (commentOf ?T) = []" by (simp add: commentOf_def)
    with s show False by simp
  qed
  have r: "?R \<noteq> ''}''" by (cases ?W) auto
  have r0: "?R \<noteq> []" by simp
  have fr: "fragmentLines (splitDirectives ?R) c =
      [\<lparr>lName = n, lParams = ps, lComments = c, lType = LineTypeBlock\<rparr>]" for c
  proof (cases "unquotedOcc (CHR ''{'') ?W (False, CHR 0x00)")
    case False
    have a: "\<not> unquotedOcc (CHR '';'') (?W @ '' '') (False, CHR 0x00)"
      "\<not> unquotedOcc (CHR ''{'') (?W @ '' '') (False, CHR 0x00)"
      using W1 False by (simp_all add: unquotedOcc_append)
    have "splitLoop ((?W @ '' '') @ ''{'') [] [] False (CHR 0x00) =
      splitLoop ''{'' [] ([] @ ?W @ '' '') (fst (quoteScan (?W @ '' '') (False, CHR 0x00)))
        (snd (quoteScan (?W @ '' '') (False, CHR 0x00)))"
      using a by (rule splitLoop_plain)
    then have sp: "splitDirectives ?R = [?R]"
      by (simp add: splitDirectives_def tb)
    have "Join (?ws @ [''{'']) '' '' = ?R"
      using Join_snoc [of ?ws "''{''" "'' ''"] by simp
    moreover have "Fields (Join (?ws @ [''{'']) '' '') = ?ws @ [''{'']"
      using ok by (intro Fields_Join) (simp add: wordOk_def not_space_brace)
    ultimately have fi: "Fields ?R = ?ws @ [''{'']" by simp
    have "fragmentLine ?R c =
        Some \<lparr>lName = n, lParams = ps, lComments = c, lType = LineTypeBlock\<rparr>"
      unfolding fragmentLine_def Let_def tb fi
      using blockParamsOf_braced [of ?ws] by simp
    then show ?thesis by (simp add: sp del: Join.simps)
  next
    case True
    then have "unquotedOcc (CHR ''{'') (concat ?ws) noQuote"
      using jt(7) [of "CHR ''{''" noQuote] by (simp add: not_space_brace noQuote_def)
    with good have ps: "ps = []" and ln: "last n = CHR ''{''"
      and bn: "\<not> unquotedOcc (CHR ''{'') (butlast n) noQuote"
      by (auto simp: headGood_def)
    from ok have wn: "wordOk n" by simp
    then have n0: "n \<noteq> []" by (simp add: wordOk_def)
    let ?m = "butlast n"
    have n: "n = ?m @ ''{''" using n0 ln by (metis append_butlast_last_id)
    have W: "?W = n" using ps by simp
    have q: "\<not> fst (quoteScan ?m (False, CHR 0x00))"
      using True bn by (subst (asm) W, subst (asm) n) (simp add: unquotedOcc_append noQuote_def)
    have m1: "\<not> unquotedOcc (CHR '';'') ?m (False, CHR 0x00)"
      using W1 unquotedOcc_butlast [of "CHR '';''" n] by (auto simp: W)
    have m2: "\<not> unquotedOcc (CHR ''{'') ?m (False, CHR 0x00)"
      using bn by (simp add: noQuote_def)
    have tn: "TrimSpace n = n"
      using wn by (intro TrimSpace_id) (auto simp: wordOk_def list_all_iff)
    have "splitLoop (?m @ ''{ {'') [] [] False (CHR 0x00) =
      splitLoop ''{ {'' [] ([] @ ?m) (fst (quoteScan ?m (False, CHR 0x00)))
        (snd (quoteScan ?m (False, CHR 0x00)))"
      using m1 m2 by (rule splitLoop_plain)
    moreover have "?R = ?m @ ''{ {''" by (subst W, subst n) simp
    ultimately have sp: "splitDirectives ?R = [TrimSpace (?m @ ''{'')]"
      using q by (simp add: splitDirectives_def)
    have "fragmentLine n c =
        Some \<lparr>lName = n, lParams = [], lComments = c, lType = LineTypeBlock\<rparr>"
      unfolding fragmentLine_def Let_def tn Fields_word [OF wn]
      using n0 ln by (simp add: blockParamsOf_def)
    then show ?thesis
      unfolding sp n [symmetric] tn using ps by simp
  qed
  have "lineItems ?T = [rehead n ps cs]"
    using s r r0 by (simp add: lineItems_def Let_def fr rehead_def del: Join.simps)
  then show ?thesis using ne s r by (simp add: T del: Join.simps)
qed

lemma reparse_closer:
  assumes "\<forall>c \<in> set ind. isSpace c"
  shows "TrimSpace (ind @ ''}'') = ''}''" and "commentOf ''}'' = ([], ''}'')"
proof -
  have "TrimSpace (ind @ ''}'') = TrimSpace ''}''" using assms by (rule TrimSpace_indent)
  then show "TrimSpace (ind @ ''}'') = ''}''" by (simp add: TrimSpace_def isSpace_def)
  show "commentOf ''}'' = ([], ''}'')" by (simp add: commentOf_def)
qed

lemma head_of_braced:
  assumes "f \<noteq> []" and "last f = CHR ''{''" and "length (Fields f) > 1"
  shows "hd (Fields f) # blockParamsOf (Fields f) = Fields (butlast f)"
proof -
  let ?g = "butlast f"
  have f: "f = ?g @ ''{''" using assms(1,2) by (metis append_butlast_last_id)
  have nb: "\<not> isSpace (CHR ''{'')" by (simp add: isSpace_def)
  show ?thesis
  proof (cases "?g = [] \<or> isSpace (last ?g)")
    case True
    then have p: "Fields f = Fields ?g @ [''{'']"
      using Fields_snoc [OF nb, of ?g] f by simp
    with assms(3) have ne: "Fields ?g \<noteq> []" by auto
    show ?thesis
      unfolding p using ne by (cases "Fields ?g") (simp_all add: blockParamsOf_def butlast_append)
  next
    case False
    then have p: "Fields f = butlast (Fields ?g) @ [last (Fields ?g) @ ''{'']"
      using Fields_snoc [OF nb, of ?g] f by simp
    from False have "\<exists>c \<in> set ?g. \<not> isSpace c" using last_in_set by blast
    then have ne: "Fields ?g \<noteq> []" by (simp add: Fields_Nil_iff)
    then have "wordOk (last (Fields ?g))"
      using Fields_words [of ?g] by (simp add: list_all_iff)
    then have w: "last (Fields ?g) \<noteq> []" by (simp add: wordOk_def)
    have bl: "butlast (Fields ?g) \<noteq> []"
    proof
      assume e: "butlast (Fields ?g) = []"
      from assms(3) show False unfolding p e by simp
    qed
    have hs: "HasSuffix (last (Fields ?g) @ ''{'') ''{''" by (rule HasSuffix_snoc)
    have "blockParamsOf (Fields f) = tl (butlast (Fields ?g)) @ [last (Fields ?g)]"
      unfolding p using bl w hs
      by (cases "butlast (Fields ?g)") (simp_all add: blockParamsOf_def TrimSuffix_def butlast_append)
    moreover have "hd (Fields f) = hd (butlast (Fields ?g))"
      unfolding p using bl by simp
    ultimately have "hd (Fields f) # blockParamsOf (Fields f) =
        butlast (Fields ?g) @ [last (Fields ?g)]"
      using bl by (cases "butlast (Fields ?g)") simp_all
    then show ?thesis using ne by simp
  qed
qed

lemma last_filter_keep: "s \<noteq> [] \<Longrightarrow> P (last s) \<Longrightarrow> last (filter P s) = last s"
  by (cases s rule: rev_cases) simp_all

lemma butlast_filter_keep: "s \<noteq> [] \<Longrightarrow> P (last s) \<Longrightarrow> butlast (filter P s) = filter P (butlast s)"
  by (cases s rule: rev_cases) simp_all

subsection \<open>Parsed lines can be printed and read back\<close>

text \<open>A fragment of the splitter, free of \<open>#\<close>, gives a good item.\<close>

lemma fragmentLine_good:
  assumes ok: "fragmentOk f" and nh: "CHR ''#'' \<notin> set f" and fl: "fragmentLine f c = Some l"
  shows "itemGood l"
proof -
  from ok have tf: "TrimSpace f = f" and ns: "\<not> unquotedOcc (CHR '';'') f noQuote"
    and nb: "\<not> unquotedOcc (CHR ''{'') (butlast f) noQuote" by (simp_all add: fragmentOk_def)
  let ?parts = "Fields f"
  from fl tf have f0: "f \<noteq> []" and p0: "?parts \<noteq> []"
    by (auto simp: fragmentLine_def Let_def split: if_splits)
  have lsp: "\<not> isSpace (last f)" using TrimSpace_ends [of f] f0 tf by simp
  have cf: "concat ?parts = filter (\<lambda>c. \<not> isSpace c) f" by (rule concat_Fields)
  have ns': "\<not> isSpace (CHR '';'')" "\<not> isSpace (CHR ''{'')" by (simp_all add: isSpace_def)
  have tg: "textGood ?parts"
    using p0 nh ns Fields_words [of f]
    by (auto simp: textGood_def cf unquotedOcc_filter ns')
  have lc: "last (concat ?parts) = last f"
    unfolding cf using f0 lsp by (rule last_filter_keep)
  show ?thesis
  proof (cases "last f = CHR ''{''")
    case False
    then have l: "l = plainLine ?parts c"
      using fl tf f0 p0 by (simp add: fragmentLine_def Let_def)
    have "f = butlast f @ [last f]" using f0 by simp
    then have "unquotedOcc (CHR ''{'') f noQuote \<longleftrightarrow>
        unquotedOcc (CHR ''{'') (butlast f @ [last f]) noQuote" by simp
    then have "\<not> unquotedOcc (CHR ''{'') f noQuote"
      using nb False by (simp add: unquotedOcc_append)
    then have "\<not> unquotedOcc (CHR ''{'') (concat ?parts) noQuote"
      by (simp add: cf unquotedOcc_filter ns')
    moreover have "hd ?parts # tl ?parts = ?parts" using p0 by simp
    ultimately show ?thesis
      using tg lc False by (simp add: itemGood_def lineGood_def l plainLine_def)
  next
    case True
    then have l: "l = \<lparr>lName = hd ?parts, lParams = blockParamsOf ?parts, lComments = c,
        lType = LineTypeBlock\<rparr>"
      using fl tf f0 p0 by (simp add: fragmentLine_def Let_def)
    have "headGood (hd ?parts) (blockParamsOf ?parts)"
    proof (cases "length ?parts > 1")
      case True
      let ?g = "butlast f"
      have eq: "hd ?parts # blockParamsOf ?parts = Fields ?g"
        using f0 \<open>last f = CHR ''{''\<close> True by (rule head_of_braced)
      have cg: "concat (Fields ?g) = filter (\<lambda>c. \<not> isSpace c) ?g" by (rule concat_Fields)
      have "CHR ''#'' \<notin> set ?g" using nh by (auto dest: in_set_butlastD)
      moreover have "\<not> unquotedOcc (CHR '';'') ?g noQuote"
        using ns unquotedOcc_butlast by blast
      moreover have "Fields ?g \<noteq> []" using eq by (metis list.distinct(1))
      ultimately have "textGood (Fields ?g)"
        using Fields_words [of ?g] by (auto simp: textGood_def cg unquotedOcc_filter ns')
      moreover have "\<not> unquotedOcc (CHR ''{'') (concat (Fields ?g)) noQuote"
        using nb by (simp add: cg unquotedOcc_filter ns')
      ultimately show ?thesis by (simp add: headGood_def eq)
    next
      case False
      then obtain w where w: "?parts = [w]" using p0 by (cases ?parts) auto
      then have wf: "w = filter (\<lambda>c. \<not> isSpace c) f" using cf by simp
      have "last w = CHR ''{''" using lc \<open>last f = CHR ''{''\<close> w by simp
      moreover have "butlast w = filter (\<lambda>c. \<not> isSpace c) (butlast f)"
        unfolding wf using f0 lsp by (rule butlast_filter_keep)
      then have "\<not> unquotedOcc (CHR ''{'') (butlast w) noQuote"
        using nb by (simp add: unquotedOcc_filter ns')
      moreover have "textGood [w]" using tg w by simp
      ultimately show ?thesis by (simp add: headGood_def w blockParamsOf_def)
    qed
    then show ?thesis by (simp add: itemGood_def lineGood_def l)
  qed
qed

lemma splitLoop_subset:
  "\<forall>f \<in> set (splitLoop cs results current inQuote quoteMark).
     set f \<subseteq> set cs \<union> set current \<union> (\<Union>r \<in> set results. set r)"
proof (induction cs arbitrary: results current inQuote quoteMark)
  case Nil
  show ?case using set_TrimSpace [of current] by auto
next
  case (Cons c cs)
  consider (semi) "c = CHR '';''" "\<not> inQuote" | (brace) "c = CHR ''{''" "\<not> inQuote"
    | (keep) "\<not> (c = CHR '';'' \<and> \<not> inQuote)" "\<not> (c = CHR ''{'' \<and> \<not> inQuote)"
    by blast
  then show ?case
  proof cases
    case semi
    then show ?thesis
      using Cons.IH [of "results @ [TrimSpace current]" "[]" inQuote quoteMark]
        set_TrimSpace [of current]
      by (simp del: splitLoop.simps add: splitLoop_semi; blast)
  next
    case brace
    then show ?thesis
      using set_TrimSpace [of "current @ ''{''"] by (simp del: splitLoop.simps add: splitLoop_brace; blast)
  next
    case keep
    then show ?thesis
      using Cons.IH [of results "current @ [c]"]
      by (simp del: splitLoop.simps add: splitLoop_keep; blast)
  qed
qed

lemma splitDirectives_subset: "f \<in> set (splitDirectives s) \<Longrightarrow> set f \<subseteq> set s"
  using splitLoop_subset [of s "[]" "[]" False "CHR 0x00"] by (auto simp: splitDirectives_def)

lemma fragmentLines_good:
  "\<forall>d \<in> set ds. fragmentOk d \<and> CHR ''#'' \<notin> set d \<Longrightarrow> list_all itemGood (fragmentLines ds c)"
  by (induction ds arbitrary: c) (auto split: option.splits dest: fragmentLine_good)

lemma commentOf_no_hash: "CHR ''#'' \<notin> set (snd (commentOf line))"
  using set_TrimSpace [of "takeWhile (\<lambda>c. c \<noteq> CHR ''#'') line"]
  by (auto simp: commentOf_def dest: set_takeWhileD)

lemma lineItems_good: "list_all itemGood (lineItems line)"
proof -
  let ?rest = "snd (commentOf line)"
  have "\<forall>d \<in> set (splitDirectives ?rest). fragmentOk d \<and> CHR ''#'' \<notin> set d"
    using splitDirectives_fragments [of ?rest] splitDirectives_subset [of _ ?rest]
      commentOf_no_hash [of line] by blast
  then have "list_all itemGood (fragmentLines (splitDirectives ?rest) c)" for c
    by (rule fragmentLines_good)
  then show ?thesis
    by (simp add: lineItems_def Let_def itemGood_def lineGood_def commentLine_def)
qed

lemma splitLoop_brace_last:
  assumes "\<forall>f \<in> set results. noBraceEnd f" and "noBraceEnd (TrimSpace current) \<or> inQuote"
  shows "\<forall>f \<in> set (butlast (splitLoop cs results current inQuote quoteMark)). noBraceEnd f"
  using assms
proof (induction cs arbitrary: results current inQuote quoteMark)
  case Nil
  then show ?case by (auto dest: in_set_butlastD)
next
  case (Cons c cs)
  let ?q = "quoteStep c (inQuote, quoteMark)"
  consider (semi) "c = CHR '';''" "\<not> inQuote" | (brace) "c = CHR ''{''" "\<not> inQuote"
    | (keep) "\<not> (c = CHR '';'' \<and> \<not> inQuote)" "\<not> (c = CHR ''{'' \<and> \<not> inQuote)"
    by blast
  then show ?case
  proof cases
    case semi
    have "\<forall>f \<in> set (butlast (splitLoop cs (results @ [TrimSpace current]) [] inQuote quoteMark)).
        noBraceEnd f"
    proof (rule Cons.IH)
      show "\<forall>f \<in> set (results @ [TrimSpace current]). noBraceEnd f"
        using Cons.prems semi by auto
      show "noBraceEnd (TrimSpace []) \<or> inQuote" by (simp add: noBraceEnd_def TrimSpace_def)
    qed
    then show ?thesis using semi by simp
  next
    case brace
    then show ?thesis using Cons.prems(1) by simp
  next
    case keep
    have "\<forall>f \<in> set (butlast (splitLoop cs results (current @ [c]) (fst ?q) (snd ?q))).
        noBraceEnd f"
    proof (rule Cons.IH)
      show "\<forall>f \<in> set results. noBraceEnd f" by (rule Cons.prems(1))
      show "noBraceEnd (TrimSpace (current @ [c])) \<or> fst ?q"
      proof (cases "isSpace c")
        case True
        then show ?thesis
          using Cons.prems(2) by (simp add: TrimSpace_space quoteStep_space)
      next
        case False
        show ?thesis
        proof (cases "c = CHR ''{''")
          case True
          with keep have inQuote by simp
          then show ?thesis using True by (simp add: quoteStep_def)
        next
          case nb: False
          then show ?thesis using False by (simp add: TrimSpace_snoc noBraceEnd_def)
        qed
      qed
    qed
    then show ?thesis using keep by (simp add: splitLoop_keep del: splitLoop.simps)
  qed
qed

lemma splitDirectives_brace_last:
  "\<forall>f \<in> set (butlast (splitDirectives s)). noBraceEnd (TrimSpace f)"
proof -
  have "\<forall>f \<in> set (butlast (splitDirectives s)). noBraceEnd f"
    unfolding splitDirectives_def
    by (rule splitLoop_brace_last) (simp_all add: noBraceEnd_def TrimSpace_def)
  moreover have "TrimSpace f = f" if "f \<in> set (butlast (splitDirectives s))" for f
    using that splitDirectives_fragments [of s] by (auto simp: fragmentOk_def dest: in_set_butlastD)
  ultimately show ?thesis by simp
qed

lemma fragmentLine_plain:
  "noBraceEnd (TrimSpace d) \<Longrightarrow> fragmentLine d c = Some l \<Longrightarrow> \<not> isBlockStart l"
  by (auto simp: fragmentLine_def Let_def noBraceEnd_def isBlockStart_def plainLine_def
      split: if_splits)

lemma length_fragmentLines: "length (fragmentLines ds c) \<le> length ds"
  by (induction ds arbitrary: c) (auto split: option.splits intro: le_SucI)

lemma fragmentLines_block_last:
  "\<forall>d \<in> set (butlast ds). noBraceEnd (TrimSpace d) \<Longrightarrow>
   filter isBlockStart (butlast (fragmentLines ds c)) = []"
proof (induction ds arbitrary: c)
  case Nil
  show ?case by simp
next
  case (Cons d ds)
  show ?case
  proof (cases "ds = []")
    case True
    then show ?thesis by (simp split: option.splits)
  next
    case False
    then have d: "noBraceEnd (TrimSpace d)" and r: "\<forall>d \<in> set (butlast ds). noBraceEnd (TrimSpace d)"
      using Cons.prems by simp_all
    show ?thesis
    proof (cases "fragmentLine d c")
      case None
      then show ?thesis using Cons.IH [OF r] by simp
    next
      case (Some l)
      then have "\<not> isBlockStart l" using d fragmentLine_plain by blast
      then show ?thesis using Some Cons.IH [OF r, of "[]"] by simp
    qed
  qed
qed

lemma lineItems_block_last: "filter isBlockStart (butlast (lineItems line)) = []"
  using fragmentLines_block_last [OF splitDirectives_brace_last]
  by (simp add: lineItems_def Let_def)

lemma blockGood_grown:
  "blockGood b \<Longrightarrow> list_all itemGood ls \<Longrightarrow> blockGood (grown n ls b)"
  by (simp add: blockGood_def grown_def)

lemma blockGood_blockOf: "itemGood l \<Longrightarrow> isBlockStart l \<Longrightarrow> blockGood (blockOf cur l)"
  by (simp add: blockGood_def blockOf_def itemGood_def isBlockStart_def)

lemma storeGood_lineStep:
  assumes "storeGood (heap st)" and cur: "cur < length (heap st)"
  shows "storeGood (heap (lineStep line cur st))"
proof -
  let ?items = "lineItems line"
  have g: "list_all itemGood ?items" by (rule lineItems_good)
  have "blockGood (grown (length (heap st)) ?items (heap st ! cur))"
    using assms g by (intro blockGood_grown) (simp_all add: storeGood_def list_all_length)
  moreover have "list_all blockGood (map (blockOf cur) (filter isBlockStart ?items))"
    using g by (auto simp: list_all_iff blockGood_blockOf)
  ultimately show ?thesis
    using assms(1) set_update_subset_insert [of "heap st" cur]
    by (auto simp: storeGood_def lineStep_heap [OF cur] list_all_iff)
qed

lemma storeGood_scanSteps:
  "storeGood (heap st) \<Longrightarrow> stackOk st \<Longrightarrow> storeGood (heap (scanSteps ls st))"
  by (induction ls arbitrary: st) (simp_all add: storeGood_lineStep stackOk_lineStep stackOk_last)

lemma storeGood_init: "storeGood (heap initState)"
  by (simp add: storeGood_def initState_def blockGood_def rootBlock_def)

subsection \<open>The store is the layout of a tree\<close>

lemma szs_simps [simp]: "szs [] = 0" "szs (t # ts) = sz t + szs ts" "szs (ts @ us) = szs ts + szs us"
  by (simp_all add: szs_def)

lemma sz_eq: "sz t = Suc (szs (tKids t))"
  by (cases t) (simp add: szs_def)

lemma length_layout: "length (layout a par t) = sz t"
  and length_layouts: "length (layouts a par ts) = szs ts"
  by (induction a par t and a par ts rule: layout_layouts.induct) (simp_all add: szs_def)

lemma starts_append: "starts a (ts @ us) = starts a ts @ starts (a + szs ts) us"
  by (induction ts arbitrary: a) (simp_all add: add.assoc)

lemma layouts_append:
  "layouts a par (ts @ us) = layouts a par ts @ layouts (a + szs ts) par us"
  by (induction ts arbitrary: a) (simp_all add: add.assoc)

lemma layout_eq:
  "layout a par t =
     \<lparr>bName = tName t, bParams = tParams t, bLines = tLines t,
      bBlocks = starts (Suc a) (tKids t), bComments = tComments t, bParentRef = par\<rparr> #
     layouts (Suc a) (Some a) (tKids t)"
  by (cases t) simp

lemma length_layoutZ: "length (layoutZ a par gs f) = offZ gs + sz f"
  by (induction gs arbitrary: a par) (simp_all add: length_layout length_layouts)

lemma stackZ_nonempty [simp]: "stackZ a gs \<noteq> []"
  by (cases gs) simp_all

lemma last_stackZ: "last (stackZ a gs) = a + offZ gs"
  by (induction gs arbitrary: a) simp_all

lemma length_stackZ: "length (stackZ a gs) = Suc (length gs)"
  by (induction gs arbitrary: a) simp_all

lemma stackZ_snoc: "stackZ a (gs @ [g]) = stackZ a gs @ [a + offZ gs + Suc (szs (tKids g))]"
  by (induction gs arbitrary: a) simp_all

lemma offZ_snoc: "offZ (gs @ [g]) = offZ gs + Suc (szs (tKids g))"
  by (induction gs) simp_all

lemma layoutZ_close: "layoutZ a par (gs @ [g]) f = layoutZ a par gs (addKid g f)"
proof (induction gs arbitrary: a par)
  case Nil
  show ?case
    by (simp add: layout_eq [of _ _ "addKid g f"] addKid_def starts_append layouts_append)
next
  case (Cons h gs)
  then show ?case by simp
qed

lemma layoutZ_plain:
  assumes "filter isBlockStart ls = []"
  shows "layoutZ a par gs (addLines ls f) =
           (layoutZ a par gs f)[offZ gs := grown n ls (layoutZ a par gs f ! offZ gs)]"
proof (induction gs arbitrary: a par)
  case Nil
  show ?case
    using assms
    by (simp add: layout_eq [of _ _ "addLines ls f"] layout_eq [of _ _ f] addLines_def grown_def)
next
  case (Cons g gs)
  show ?case
    using Cons.IH [of "Suc a + szs (tKids g)" "Some a"]
    by (simp add: list_update_append nth_append length_layouts)
qed

lemma layoutZ_open:
  assumes "filter isBlockStart ps = []" and "isBlockStart bs"
  shows "layoutZ a par (gs @ [addLines (ps @ [bs]) f]) (newNode bs) =
           (layoutZ a par gs f)
             [offZ gs := grown (a + length (layoutZ a par gs f)) (ps @ [bs])
                           (layoutZ a par gs f ! offZ gs)] @
           [blockOf (a + offZ gs) bs]"
proof (induction gs arbitrary: a par)
  case Nil
  show ?case
    using assms
    by (simp add: layout_eq [of _ _ f] addLines_def grown_def newNode_def blockOf_def
        length_layouts sz_eq)
next
  case (Cons g gs)
  show ?case
    using Cons.IH [of "Suc a + szs (tKids g)" "Some a"]
    by (simp add: list_update_append nth_append length_layouts length_layoutZ add.assoc)
qed

lemma grown_Nil [simp]: "grown n [] b = b"
  by (simp add: grown_def)

lemma lineItems_close: "snd (commentOf line) = ''}'' \<Longrightarrow> lineItems line = []"
  by (simp add: lineItems_def)

lemma lineStep_stack:
  assumes "cur < length (heap st)"
  shows "blockStack (lineStep line cur st) =
     (if snd (commentOf line) = ''}''
      then (if length (blockStack st) > 1 then butlast (blockStack st) else blockStack st)
      else blockStack st @
           [length (heap st) ..< length (heap st) + length (filter isBlockStart (lineItems line))])"
  using applyLines_state [OF assms, THEN conjunct2]
  by (simp add: lineStep_def lineItems_def Let_def isBlockStart_def commentLine_def)

lemma sim_step:
  assumes r: "rel st z"
  shows "rel (lineStep line (last (blockStack st)) st) (zstep line z)"
proof -
  obtain gs f where z: "z = (gs, f)" by (cases z)
  let ?h = "layoutZ 0 None gs f"
  from r have h: "heap st = ?h" and s: "blockStack st = stackZ 0 gs" by (simp_all add: rel_def z)
  have cur: "last (blockStack st) = offZ gs" by (simp add: s last_stackZ)
  have n: "length (heap st) = offZ gs + sz f" by (simp add: h length_layoutZ)
  have lt: "offZ gs < length (heap st)" using n by (simp add: sz_eq)
  note H = lineStep_heap [OF lt, of line, unfolded h]
  note S = lineStep_stack [OF lt, of line, unfolded s]
  let ?ls = "lineItems line"
  show ?thesis
  proof (cases "snd (commentOf line) = ''}''")
    case True
    then have ls: "?ls = []" by (rule lineItems_close)
    show ?thesis
    proof (cases "gs = []")
      case True
      then show ?thesis
        using \<open>snd (commentOf line) = ''}''\<close> H S ls
        by (simp add: rel_def z zstep_def cur list_update_same_conv)
    next
      case False
      then obtain gs' g where g: "gs = gs' @ [g]" by (cases gs rule: rev_cases) auto
      show ?thesis
        using \<open>snd (commentOf line) = ''}''\<close> H S ls
        by (simp add: rel_def z zstep_def cur g layoutZ_close stackZ_snoc length_stackZ
            list_update_same_conv length_layoutZ offZ_snoc)
    qed
  next
    case False
    note nc = this
    have bl: "filter isBlockStart (butlast ?ls) = []" by (rule lineItems_block_last)
    show ?thesis
    proof (cases "?ls \<noteq> [] \<and> isBlockStart (last ?ls)")
      case True
      then have ls: "?ls = butlast ?ls @ [last ?ls]" by simp
      have "filter isBlockStart (butlast ?ls @ [last ?ls]) = [last ?ls]"
        using bl True by (simp del: append_butlast_last_id)
      then have fl: "filter isBlockStart ?ls = [last ?ls]"
        using True by simp
      have "layoutZ 0 None (gs @ [addLines (butlast ?ls @ [last ?ls]) f]) (newNode (last ?ls)) =
          ?h[offZ gs := grown (0 + length ?h) (butlast ?ls @ [last ?ls]) (?h ! offZ gs)] @
          [blockOf (0 + offZ gs) (last ?ls)]"
        using bl True by (intro layoutZ_open) simp_all
      then have "layoutZ 0 None (gs @ [addLines ?ls f]) (newNode (last ?ls)) =
          ?h[offZ gs := grown (length ?h) ?ls (?h ! offZ gs)] @ [blockOf (offZ gs) (last ?ls)]"
        using ls by simp
      then show ?thesis
        using True nc H S
        by (simp add: rel_def z zstep_def applyItems_def cur fl stackZ_snoc length_layoutZ
            addLines_def n sz_eq)
    next
      case False
      then have fl: "filter isBlockStart ?ls = []"
        using bl by (cases ?ls rule: rev_cases) auto
      have "layoutZ 0 None gs (addLines ?ls f) =
          ?h[offZ gs := grown (length ?h) ?ls (?h ! offZ gs)]"
        using fl by (rule layoutZ_plain)
      then show ?thesis
        using False nc H S by (auto simp: rel_def z zstep_def applyItems_def cur fl)
    qed
  qed
qed

lemma sim_scan: "rel st z \<Longrightarrow> rel (scanSteps ls st) (zscan ls z)"
  by (induction ls arbitrary: st z) (simp_all add: sim_step)

lemma rel_init: "rel initState ([], rootNode)"
  by (simp add: rel_def initState_def rootNode_def rootBlock_def)

lemma layoutZ_plug: "layoutZ a par gs f = layout a par (foldr addKid gs f)"
proof (induction gs arbitrary: f rule: rev_induct)
  case Nil
  show ?case by simp
next
  case (snoc g gs)
  show ?case using snoc [of "addKid g f"] by (simp add: layoutZ_close)
qed

lemma heap_scanSteps:
  "heap (scanSteps ls initState) = layout 0 None (plug (zscan ls ([], rootNode)))"
  using sim_scan [OF rel_init, of ls] by (simp add: rel_def plug_def layoutZ_plug)

subsection \<open>The printer renders the tree\<close>

lemma deref_at: "length pre = a \<Longrightarrow> deref (pre @ b # rest) a = Some b"
  by (auto simp: deref_def nth_append)

lemma sz_le_szs: "t \<in> set ts \<Longrightarrow> sz t \<le> szs ts"
  by (induction ts) auto

lemma printBlock_layout:
  "\<forall>pre post fuel indent. length pre = a \<longrightarrow> sz t \<le> fuel \<longrightarrow>
      printBlock fuel (pre @ layout a par t @ post) a indent = Some (render t indent)"
  and printBlocks_layouts:
  "\<forall>pre post fuel indent. length pre = b \<longrightarrow> (\<forall>t \<in> set ts. sz t \<le> fuel) \<longrightarrow>
      printBlocks fuel (pre @ layouts b par' ts @ post) (starts b ts) indent =
        Some (concat (map (\<lambda>t. render t indent) ts))"
proof (induction a par t and b par' ts rule: layout_layouts.induct)
  case (1 a par n ps cs ls ts)
  show ?case
  proof (intro allI impI)
    fix pre post :: store and fuel indent :: nat
    assume a: "length pre = a" and f: "sz (Node n ps cs ls ts) \<le> fuel"
    then obtain fuel' where fuel: "fuel = Suc fuel'" and f': "szs ts \<le> fuel'"
      by (cases fuel) (auto simp: szs_def)
    let ?b = "\<lparr>bName = n, bParams = ps, bLines = ls, bBlocks = starts (Suc a) ts,
                bComments = cs, bParentRef = par\<rparr>"
    let ?h = "pre @ layout a par (Node n ps cs ls ts) @ post"
    have h: "?h = (pre @ [?b]) @ layouts (Suc a) (Some a) ts @ post" by simp
    have d: "deref ?h a = Some ?b" using a by (simp add: deref_at)
    have kf: "\<forall>t \<in> set ts. sz t \<le> fuel'" using f' sz_le_szs by fastforce
    have k: "printBlocks fuel' ?h (starts (Suc a) ts) (indent + 1) =
        Some (concat (map (\<lambda>t. render t (indent + 1)) ts))"
      using 1 [rule_format, where pre = "pre @ [?b]" and fuel = fuel' and post = post
          and indent = "indent + 1"] a kf
      by simp
    show "printBlock fuel ?h a indent = Some (render (Node n ps cs ls ts) indent)"
      unfolding fuel printBlock.simps d using k
      by (simp add: printHeader_eq Let_def del: layout.simps)
  qed
next
  case (2 a par)
  show ?case by simp
next
  case (3 a par t ts)
  show ?case
  proof (intro allI impI)
    fix pre post :: store and fuel indent :: nat
    assume a: "length pre = a" and f: "\<forall>u \<in> set (t # ts). sz u \<le> fuel"
    let ?h = "pre @ layouts a par (t # ts) @ post"
    have h1: "?h = pre @ layout a par t @ (layouts (a + sz t) par ts @ post)" by simp
    have h2: "?h = (pre @ layout a par t) @ layouts (a + sz t) par ts @ post" by simp
    have p1: "printBlock fuel ?h a indent = Some (render t indent)"
      using 3(1) [rule_format, where pre = pre and fuel = fuel
          and post = "layouts (a + sz t) par ts @ post" and indent = indent] a f
      by simp
    have p2: "printBlocks fuel ?h (starts (a + sz t) ts) indent =
        Some (concat (map (\<lambda>t. render t indent) ts))"
      using 3(2) [rule_format, where pre = "pre @ layout a par t" and fuel = fuel
          and post = post and indent = indent] a f
      by (simp add: length_layout)
    show "printBlocks fuel ?h (starts a (t # ts)) indent =
        Some (concat (map (\<lambda>t. render t indent) (t # ts)))"
      using p1 p2 by (simp del: layouts.simps)
  qed
qed

lemma printBlock_root:
  "length (layout 0 None t) \<le> fuel \<Longrightarrow> printBlock fuel (layout 0 None t) 0 0 = Some (render t 0)"
  using printBlock_layout [rule_format, of "[]" 0 t fuel None "[]" 0]
  by (simp add: length_layout)

subsection \<open>Parsing the rendered tree\<close>

lemma zscan_append: "zscan (xs @ ys) z = zscan ys (zscan xs z)"
  by (induction xs arbitrary: z) simp_all

lemma addLines_addLines: "addLines ms (addLines ls f) = addLines (ls @ ms) f"
  by (simp add: addLines_def)

lemma addLines_Nil [simp]: "addLines [] f = f"
  by (simp add: addLines_def)

lemma reline_type [simp]: "isBlockStart (reline l) = isBlockStart l"
  by (simp add: reline_def isBlockStart_def)

lemma rehead_block [simp]: "isBlockStart (rehead n ps cs)"
  by (simp add: rehead_def isBlockStart_def)

lemma zscan_printLines:
  assumes "linesGood ls" and "\<forall>c \<in> set ind. isSpace c"
  shows "zscan (printLines ind ls) (gs, f) =
           (gs, addLines (map reline (filter (\<lambda>l. \<not> isBlockStart l) ls)) f)"
  using assms(1)
proof (induction ls arbitrary: f)
  case Nil
  show ?case by simp
next
  case (Cons l ls)
  then have rest: "linesGood ls" and l: "lineGood l" "quotesClosed l"
    by (simp_all add: linesGood_def)
  show ?case
  proof (cases "lType l = LineTypeBlock")
    case True
    then show ?thesis using Cons.IH [OF rest] by (simp add: isBlockStart_def)
  next
    case False
    note r = reparse_line [OF l(1) False l(2) assms(2)]
    have "zstep (TrimSpace (printLine ind l)) (gs, f) = (gs, addLines [reline l] f)"
      using r False by (simp add: zstep_def applyItems_def isBlockStart_def reline_def)
    then show ?thesis
      using False r Cons.IH [OF rest, of "addLines [reline l] f"]
      by (simp add: isBlockStart_def addLines_addLines)
  qed
qed

lemma foldl_adopt:
  "foldl adopt f ts =
     Node (tName f) (tParams f) (tComments f) (tLines f @ map headLine ts)
       (tKids f @ map norm ts)"
  by (induction ts arbitrary: f) (simp_all add: adopt_def addKid_def addLines_def)

lemma zscan_render:
  "kidGood t \<Longrightarrow> zscan (render t indent) (gs, f) = (gs, adopt f t)"
proof (induction t arbitrary: indent gs f)
  case (Node n ps cs ls ts)
  let ?ind = "Repeat ''  '' indent"
  let ?hl = "rehead n ps cs"
  from Node.prems have nr: "n \<noteq> ''root''" and hg: "headGood n ps" and lg: "linesGood ls"
    and kg: "list_all kidGood ts" by simp_all
  have sp: "\<forall>c \<in> set ?ind. isSpace c" by (rule Repeat_spaces)
  note rh = reparse_header [OF hg sp, of cs]
  have kids: "zscan (concat (map (\<lambda>t. render t (indent + 1)) us)) (gs', f') =
      (gs', foldl adopt f' us)" if "set us \<subseteq> set ts" for us gs' f'
    using that
  proof (induction us arbitrary: f')
    case Nil
    show ?case by simp
  next
    case (Cons u us)
    then have "u \<in> set ts" by simp
    moreover from this kg have "kidGood u" by (simp add: list_all_iff)
    ultimately have "zscan (render u (indent + 1)) (gs', f') = (gs', adopt f' u)"
      by (rule Node.IH)
    then show ?case using Cons by (simp add: zscan_append)
  qed
  let ?g = "addLines [?hl] f"
  have 1: "zscan [headerStr ?ind n ps cs] (gs, f) = (gs @ [?g], newNode ?hl)"
    using rh by (simp add: zstep_def applyItems_def)
  have 2: "zscan (printLines ?ind ls) (gs @ [?g], newNode ?hl) =
      (gs @ [?g], addLines (map reline (filter (\<lambda>l. \<not> isBlockStart l) ls)) (newNode ?hl))"
    using lg sp by (rule zscan_printLines)
  let ?f2 = "addLines (map reline (filter (\<lambda>l. \<not> isBlockStart l) ls)) (newNode ?hl)"
  have 3: "zscan (concat (map (\<lambda>t. render t (indent + 1)) ts)) (gs @ [?g], ?f2) =
      (gs @ [?g], foldl adopt ?f2 ts)"
    by (rule kids) simp
  have 4: "zscan [?ind @ ''}''] (gs @ [?g], F) = (gs, addKid ?g F)" for F
    using reparse_closer [OF sp] by (simp add: zstep_def)
  have "foldl adopt ?f2 ts = norm (Node n ps cs ls ts)"
    by (simp add: foldl_adopt addLines_def newNode_def rehead_def headLine_def)
  moreover have "render (Node n ps cs ls ts) indent =
      [headerStr ?ind n ps cs] @ printLines ?ind ls @
      concat (map (\<lambda>t. render t (indent + 1)) ts) @ [?ind @ ''}'']"
    using nr by simp
  then have "zscan (render (Node n ps cs ls ts) indent) (gs, f) =
      (gs, addKid ?g (foldl adopt ?f2 ts))"
    by (simp only: zscan_append 1 2 3 4)
  ultimately show ?case by (simp add: adopt_def headLine_def)
qed

lemma zscan_kids:
  "list_all kidGood ts \<Longrightarrow>
   zscan (concat (map (\<lambda>t. render t indent) ts)) (gs, f) = (gs, foldl adopt f ts)"
  by (induction ts arbitrary: f) (simp_all add: zscan_append zscan_render)

lemma zscan_render_root:
  assumes "tName t = ''root''" and "linesGood (tLines t)" and "list_all kidGood (tKids t)"
  shows "zscan (render t 0) ([], rootNode) = ([], normRoot t)"
proof -
  obtain n ps cs ls ts where t: "t = Node n ps cs ls ts" by (cases t)
  have sp: "\<forall>c \<in> set (Repeat ''  '' 0). isSpace c" by (rule Repeat_spaces)
  have "render t 0 = printLines (Repeat ''  '' 0) ls @ concat (map (\<lambda>t. render t 1) ts)"
    using assms(1) by (simp add: t)
  then have "zscan (render t 0) ([], rootNode) =
      zscan (concat (map (\<lambda>t. render t 1) ts)) (zscan (printLines (Repeat ''  '' 0) ls) ([], rootNode))"
    by (simp only: zscan_append)
  also have "\<dots> = ([], foldl adopt
      (addLines (map reline (filter (\<lambda>l. \<not> isBlockStart l) ls)) rootNode) ts)"
    using assms(2,3) sp by (simp add: t zscan_printLines zscan_kids)
  also have "\<dots> = ([], normRoot t)"
    by (simp add: foldl_adopt normRoot_def t addLines_def rootNode_def)
  finally show ?thesis .
qed

lemma kidGood_layout:
  "par \<noteq> None \<longrightarrow> list_all blockFine (layout a par t) \<longrightarrow> kidGood t"
  and kidsGood_layouts:
  "par' \<noteq> None \<longrightarrow> list_all blockFine (layouts b par' ts) \<longrightarrow> list_all kidGood ts"
proof (induction a par t and b par' ts rule: layout_layouts.induct)
  case (1 a par n ps cs ls ts)
  show ?case
    using 1
    by (auto simp: blockFine_def blockGood_def linesGood_def itemGood_def list_all_iff)
next
  case (2 a par)
  show ?case by simp
next
  case (3 a par t ts)
  then show ?case by simp
qed

lemma sz_norm: "sz (norm t) = sz t"
proof (induction t)
  case (Node n ps cs ls ts)
  then have "sum_list (map (\<lambda>x. sz (norm x)) ts) = sum_list (map sz ts)"
    by (intro arg_cong [where f = sum_list] map_cong) simp_all
  then show ?case by (simp add: comp_def)
qed

lemma starts_norm: "starts a (map norm ts) = starts a ts"
  by (induction ts arbitrary: a) (simp_all add: sz_norm)

subsection \<open>The round trip\<close>

lemma lineKey_reline [simp]: "lineKey (reline l) = lineKey l"
  by (simp add: lineKey_def reline_def)

lemma filter_plain_norm:
  "filter (\<lambda>l. \<not> isBlockStart l) (map reline (filter (\<lambda>l. \<not> isBlockStart l) ls) @ map f ts) =
     map reline (filter (\<lambda>l. \<not> isBlockStart l) ls)"
  if "\<And>t. isBlockStart (f t)"
  using that by (simp add: filter_map comp_def)

lemma coreEq_layout:
  "list_all2 coreEq (layout a par t) (layout a par (norm t))"
  and coreEq_layouts:
  "list_all2 coreEq (layouts b par' ts) (layouts b par' (map norm ts))"
proof (induction a par t and b par' ts rule: layout_layouts.induct)
  case (1 a par n ps cs ls ts)
  have "filter (\<lambda>l. \<not> isBlockStart l)
      (map reline (filter (\<lambda>l. \<not> isBlockStart l) ls) @
       map (\<lambda>t. rehead (tName t) (tParams t) (tComments t)) ts) =
      map reline (filter (\<lambda>l. \<not> isBlockStart l) ls)"
    by (rule filter_plain_norm) simp
  then show ?case
    using 1 by (simp add: coreEq_def starts_norm comp_def)
next
  case (2 a par)
  show ?case by simp
next
  case (3 a par t ts)
  then show ?case by (simp add: sz_norm list_all2_appendI)
qed

lemma coreEq_root:
  assumes "tName t = ''root''" and "tParams t = []"
  shows "list_all2 coreEq (layout 0 None t) (layout 0 None (normRoot t))"
proof -
  obtain n ps cs ls ts where t: "t = Node n ps cs ls ts" by (cases t)
  have "filter (\<lambda>l. \<not> isBlockStart l)
      (map reline (filter (\<lambda>l. \<not> isBlockStart l) ls) @ map headLine ts) =
      map reline (filter (\<lambda>l. \<not> isBlockStart l) ls)"
    by (rule filter_plain_norm) (simp add: headLine_def)
  then show ?thesis
    using assms coreEq_layouts [of 1 "Some 0" ts]
    by (simp add: t normRoot_def coreEq_def starts_norm comp_def)
qed

lemma outer_zstep: "outer (zstep line z) = outer z"
proof -
  obtain gs f where z: "z = (gs, f)" by (cases z)
  show ?thesis
    by (cases gs rule: rev_cases; cases "butlast gs")
       (auto simp: z zstep_def applyItems_def outer_def addLines_def addKid_def butlast_append
          hd_append split: if_splits)
qed

lemma outer_zscan: "outer (zscan ls z) = outer z"
  by (induction ls arbitrary: z) (simp_all add: outer_zstep)

lemma outer_plug: "(tName (plug z), tParams (plug z)) = outer z"
proof -
  have "(tName (foldr addKid gs f), tParams (foldr addKid gs f)) =
      (tName (hd (gs @ [f])), tParams (hd (gs @ [f])))" for gs f
    by (cases gs) (simp_all add: addKid_def)
  then show ?thesis by (simp add: plug_def outer_def)
qed

lemma plug_root:
  "tName (plug (zscan ls ([], rootNode))) = ''root''"
  "tParams (plug (zscan ls ([], rootNode))) = []"
  using outer_plug [of "zscan ls ([], rootNode)"]
  by (simp_all add: outer_zscan) (simp_all add: outer_def rootNode_def)

lemma key_of_head:
  "map lineKey (filter isBlockStart ls) =
     map (\<lambda>x. (LineTypeBlock, fst x, snd x)) (map lineHead (filter isBlockStart ls))"
  by (induction ls) (simp_all add: lineKey_def lineHead_def isBlockStart_def)

lemma sameStructure_core:
  assumes c: "list_all2 coreEq h h'" and s: "shape h" and s': "shape h'"
  shows "sameStructure h h'"
proof -
  from c have len: "length h = length h'" by (rule list_all2_lengthD)
  have ce: "coreEq (h ! i) (h' ! i)" if "i < length h" for i
    using c that by (rule list_all2_nthD)
  have "sameBlock (h ! i) (h' ! i)" if i: "i < length h" for i
  proof -
    let ?b = "h ! i" and ?b' = "h' ! i"
    from ce [OF i] have kids: "bBlocks ?b = bBlocks ?b'" by (simp add: coreEq_def)
    from s i have ok: "blockOk h ?b" by (simp add: shape_def list_all_length)
    from s' i len have ok': "blockOk h' ?b'" by (simp add: shape_def list_all_length)
    have "blockHead (h ! c) = blockHead (h' ! c)" if "c \<in> set (bBlocks ?b)" for c
    proof -
      from ok that have "c < length h" by (simp add: blockOk_def list_all_iff)
      from ce [OF this] show ?thesis by (simp add: coreEq_def blockHead_def)
    qed
    then have "map (\<lambda>c. blockHead (h ! c)) (bBlocks ?b) = map (\<lambda>c. blockHead (h' ! c)) (bBlocks ?b)"
      by (intro map_cong) simp_all
    then have "map lineHead (filter isBlockStart (bLines ?b)) =
        map lineHead (filter isBlockStart (bLines ?b'))"
      using ok ok' kids by (simp add: blockOk_def)
    then have "map lineKey (filter isBlockStart (bLines ?b)) =
        map lineKey (filter isBlockStart (bLines ?b'))"
      by (simp only: key_of_head)
    then show ?thesis
      using ce [OF i] by (simp add: sameBlock_def coreEq_def isBlockStart_eq)
  qed
  then show ?thesis
    using len by (simp add: sameStructure_def list_all2_conv_all_nth)
qed

lemma layout_parts:
  "layout 0 None t =
     \<lparr>bName = tName t, bParams = tParams t, bLines = tLines t, bBlocks = starts 1 (tKids t),
      bComments = tComments t, bParentRef = None\<rparr> # layouts 1 (Some 0) (tKids t)"
  by (cases t) simp

text \<open>
  The round trip on the lines: the lines that the printer writes parse to a store of
  the same structure.
\<close>

lemma round_trip_lines:
  "ParseConfig (Opened ls None) fp = Inr cfg \<longrightarrow>
   list_all (\<lambda>b. bName b \<noteq> ''root'') (tl (store cfg)) \<longrightarrow>
   list_all (\<lambda>b. list_all quotesClosed (bLines b)) (store cfg) \<longrightarrow>
   length (store cfg) \<le> fuel \<longrightarrow>
   (\<exists>out cfg'. PrintConfig fuel cfg = Some out \<and>
      ParseConfig (Opened out None) fp = Inr cfg' \<and>
      sameStructure (store cfg) (store cfg'))"
proof (intro impI)
  define t where "t = plug (zscan ls ([], rootNode))"
  define rest where "rest = layouts 1 (Some 0) (tKids t)"
  define b0 where "b0 = \<lparr>bName = tName t, bParams = tParams t, bLines = tLines t,
      bBlocks = starts 1 (tKids t), bComments = tComments t, bParentRef = None\<rparr>"
  assume p: "ParseConfig (Opened ls None) fp = Inr cfg"
    and r1: "list_all (\<lambda>b. bName b \<noteq> ''root'') (tl (store cfg))"
    and r2: "list_all (\<lambda>b. list_all quotesClosed (bLines b)) (store cfg)"
    and fu: "length (store cfg) \<le> fuel"
  from p have cfg: "cfg = \<lparr>store = heap (scanSteps ls initState), RootBlock = 0, FilePath = fp\<rparr>"
    by (simp add: ParseConfig_Opened)
  have hs: "heap (scanSteps ls initState) = layout 0 None t"
    unfolding t_def by (rule heap_scanSteps)
  have h: "store cfg = layout 0 None t" by (simp add: cfg hs)
  have root: "RootBlock cfg = 0" by (simp add: cfg)
  have lp: "layout 0 None t = b0 # rest"
    unfolding b0_def rest_def by (rule layout_parts)
  have good: "storeGood (layout 0 None t)"
    using storeGood_scanSteps [OF storeGood_init stackOk_init, of ls] by (simp only: hs)
  have sh: "shape (layout 0 None t)"
    using shape_scanSteps [OF shape_init stackOk_init, of ls] by (simp only: hs)
  from good have g0: "blockGood b0" and gr: "list_all blockGood rest"
    by (simp_all add: storeGood_def lp)
  from r2 have q0: "list_all quotesClosed (bLines b0)"
    and qr: "list_all (\<lambda>b. list_all quotesClosed (bLines b)) rest"
    by (simp_all add: h lp)
  from r1 have nr: "list_all (\<lambda>b. bName b \<noteq> ''root'') rest" by (simp add: h lp)
  have "list_all blockFine rest"
    using gr qr nr by (simp add: blockFine_def list_all_iff)
  then have kg: "list_all kidGood (tKids t)"
    using kidsGood_layouts [of "Some 0" 1 "tKids t"] by (simp add: rest_def)
  have "list_all itemGood (tLines t)" "list_all quotesClosed (tLines t)"
    using g0 q0 by (simp_all add: b0_def blockGood_def)
  then have lg: "linesGood (tLines t)"
    by (simp add: linesGood_def itemGood_def list_all_iff)
  have tn: "tName t = ''root''" and tp: "tParams t = []"
    unfolding t_def by (rule plug_root)+
  define out where "out = render t 0"
  have "length (layout 0 None t) \<le> fuel" using fu by (simp only: h)
  then have "printBlock fuel (layout 0 None t) 0 0 = Some out"
    unfolding out_def by (rule printBlock_root)
  then have pr: "PrintConfig fuel cfg = Some out"
    by (simp only: PrintConfig_def h root)
  define cfg' where
    "cfg' = \<lparr>store = heap (scanSteps out initState), RootBlock = 0, FilePath = fp\<rparr>"
  have p': "ParseConfig (Opened out None) fp = Inr cfg'"
    unfolding cfg'_def by (rule ParseConfig_Opened)
  have "zscan out ([], rootNode) = ([], normRoot t)"
    unfolding out_def using tn lg kg by (rule zscan_render_root)
  then have "heap (scanSteps out initState) = layout 0 None (normRoot t)"
    by (simp add: heap_scanSteps plug_def)
  then have h': "store cfg' = layout 0 None (normRoot t)" by (simp add: cfg'_def)
  have "shape (heap (scanSteps out initState))"
    using shape_init stackOk_init by (rule shape_scanSteps)
  then have sh': "shape (store cfg')" by (simp add: cfg'_def)
  have "list_all2 coreEq (layout 0 None t) (layout 0 None (normRoot t))"
    using tn tp by (rule coreEq_root)
  then have "sameStructure (layout 0 None t) (layout 0 None (normRoot t))"
    using sh sh' [unfolded h'] by (rule sameStructure_core)
  then have same: "sameStructure (store cfg) (store cfg')" by (simp only: h h')
  show "\<exists>out cfg'. PrintConfig fuel cfg = Some out \<and>
      ParseConfig (Opened out None) fp = Inr cfg' \<and>
      sameStructure (store cfg) (store cfg')"
    using pr p' same by blast
qed

lemmas print_simps =
  PrintConfig_def printLine_def printHeader_def deref_def Repeat_def len_def lineHead_def
  blockHead_def quotesClosed_def noQuote_def quoteStep_def eval_nat_numeral

subsection \<open>The printed text holds the printed lines\<close>

lemma quiet_subset: "set s \<subseteq> set t \<Longrightarrow> quiet t \<Longrightarrow> quiet s"
  by (auto simp: quiet_def)

lemma quiet_TrimSpace: "quiet s \<Longrightarrow> quiet (TrimSpace s)"
  using set_TrimSpace [of s] by (rule quiet_subset)

lemma quiet_Fields: "quiet s \<Longrightarrow> list_all quiet (Fields s)"
proof -
  assume q: "quiet s"
  have "set (concat (Fields s)) \<subseteq> set s" by (simp add: concat_Fields)
  then have "set w \<subseteq> set s" if "w \<in> set (Fields s)" for w using that by auto
  then show ?thesis using q by (auto simp: list_all_iff intro: quiet_subset)
qed

lemma quiet_TrimSuffix: "quiet s \<Longrightarrow> quiet (TrimSuffix s u)"
  by (auto simp: TrimSuffix_def quiet_def dest: in_set_takeD)

lemma quiet_blockParamsOf: "list_all quiet parts \<Longrightarrow> list_all quiet (blockParamsOf parts)"
proof -
  assume q: "list_all quiet parts"
  have t: "list_all quiet (tl parts)" using q by (cases parts) simp_all
  then have b: "list_all quiet (butlast (tl parts))"
    by (auto simp: list_all_iff dest: in_set_butlastD)
  have "quiet (last parts)" if "1 < length parts"
  proof -
    from that have "parts \<noteq> []" by auto
    then show ?thesis using q by (simp add: list_all_iff)
  qed
  then have "quiet (TrimSuffix (last parts) u)" if "1 < length parts" for u
    using that by (intro quiet_TrimSuffix)
  then show ?thesis using t b by (auto simp: blockParamsOf_def)
qed

lemma fragmentLine_quiet:
  assumes "quiet d" and "list_all quiet c" and "fragmentLine d c = Some l"
  shows "lineQuiet l"
proof -
  let ?parts = "Fields (TrimSpace d)"
  have q: "list_all quiet ?parts" using assms(1) by (intro quiet_Fields quiet_TrimSpace)
  have ne: "?parts \<noteq> []" using assms(3) by (auto simp: fragmentLine_def Let_def split: if_splits)
  from q ne have h: "quiet (hd ?parts)" and t: "list_all quiet (tl ?parts)"
    by (cases ?parts; simp)+
  show ?thesis
    using assms(2,3) h t quiet_blockParamsOf [OF q]
    by (auto simp: fragmentLine_def Let_def lineQuiet_def plainLine_def split: if_splits)
qed

lemma fragmentLines_quiet:
  "\<forall>d \<in> set ds. quiet d \<Longrightarrow> list_all quiet c \<Longrightarrow> list_all lineQuiet (fragmentLines ds c)"
  by (induction ds arbitrary: c) (auto split: option.splits dest: fragmentLine_quiet)

lemma commentOf_quiet:
  assumes "quiet line"
  shows "list_all quiet (fst (commentOf line))" and "quiet (snd (commentOf line))"
proof -
  have "set (tl (dropWhile (\<lambda>c. c \<noteq> CHR ''#'') line)) \<subseteq> set line"
    by (metis list.set_sel(2) set_dropWhileD subsetI tl_Nil)
  then have "quiet (tl (dropWhile (\<lambda>c. c \<noteq> CHR ''#'') line))"
    using assms by (rule quiet_subset)
  moreover have "quiet (takeWhile (\<lambda>c. c \<noteq> CHR ''#'') line)"
    using assms by (auto simp: quiet_def dest: set_takeWhileD)
  ultimately show "list_all quiet (fst (commentOf line))" and "quiet (snd (commentOf line))"
    using assms by (simp_all add: commentOf_def quiet_TrimSpace)
qed

lemma lineItems_quiet:
  assumes "quiet line"
  shows "list_all lineQuiet (lineItems line)"
proof -
  let ?rest = "snd (commentOf line)"
  have "\<forall>d \<in> set (splitDirectives ?rest). quiet d"
    using splitDirectives_subset [of _ ?rest] commentOf_quiet(2) [OF assms]
    by (blast intro: quiet_subset)
  then have "list_all lineQuiet (fragmentLines (splitDirectives ?rest) (fst (commentOf line)))"
    using commentOf_quiet(1) [OF assms] by (rule fragmentLines_quiet)
  then show ?thesis
    using commentOf_quiet(1) [OF assms]
    by (simp add: lineItems_def Let_def lineQuiet_def commentLine_def)
qed

lemma blockQuiet_grown:
  "blockQuiet b \<Longrightarrow> list_all lineQuiet ls \<Longrightarrow> blockQuiet (grown n ls b)"
  by (simp add: blockQuiet_def grown_def)

lemma blockQuiet_blockOf: "lineQuiet l \<Longrightarrow> blockQuiet (blockOf cur l)"
  by (simp add: blockQuiet_def blockOf_def lineQuiet_def)

lemma storeQuiet_lineStep:
  assumes "list_all blockQuiet (heap st)" and cur: "cur < length (heap st)" and "quiet line"
  shows "list_all blockQuiet (heap (lineStep line cur st))"
proof -
  let ?items = "lineItems line"
  have g: "list_all lineQuiet ?items" using assms(3) by (rule lineItems_quiet)
  have "blockQuiet (grown (length (heap st)) ?items (heap st ! cur))"
    using assms g by (intro blockQuiet_grown) (simp_all add: list_all_length)
  moreover have "list_all blockQuiet (map (blockOf cur) (filter isBlockStart ?items))"
    using g by (auto simp: list_all_iff blockQuiet_blockOf)
  ultimately show ?thesis
    using assms(1) set_update_subset_insert [of "heap st" cur]
    by (auto simp: lineStep_heap [OF cur] list_all_iff)
qed

lemma storeQuiet_scanSteps:
  "list_all blockQuiet (heap st) \<Longrightarrow> stackOk st \<Longrightarrow> list_all quiet ls \<Longrightarrow>
   list_all blockQuiet (heap (scanSteps ls st))"
  by (induction ls arbitrary: st)
     (simp_all add: storeQuiet_lineStep stackOk_lineStep stackOk_last quiet_TrimSpace)

lemma storeQuiet_init: "list_all blockQuiet (heap initState)"
  by (simp add: initState_def blockQuiet_def rootBlock_def)

lemma quiet_Join: "list_all quiet ws \<Longrightarrow> quiet (Join ws '' '')"
  by (induction ws "'' ''" rule: Join.induct) simp_all

lemma quiet_Repeat: "quiet (Repeat ''  '' n)"
  by (induction n) (simp_all add: Repeat_def)

lemma quiet_printLine: "lineQuiet l \<Longrightarrow> quiet ind \<Longrightarrow> quiet (printLine ind l)"
  by (simp add: printLine_eq lineQuiet_def quiet_Join)

lemma quiet_printLines: "list_all lineQuiet ls \<Longrightarrow> quiet ind \<Longrightarrow> list_all quiet (printLines ind ls)"
  by (induction ls) (simp_all add: quiet_printLine)

lemma quiet_printHeader: "blockQuiet b \<Longrightarrow> quiet ind \<Longrightarrow> quiet (printHeader ind b)"
  by (simp add: printHeader_eq headerStr_def blockQuiet_def quiet_Join)

lemma quiet_printBlock:
  "list_all blockQuiet h \<Longrightarrow> printBlock fuel h p indent = Some out \<Longrightarrow> list_all quiet out"
  and quiet_printBlocks:
  "list_all blockQuiet h \<Longrightarrow> printBlocks fuel' h ps indent' = Some outs \<Longrightarrow> list_all quiet outs"
proof (induction fuel h p indent and fuel' h ps indent' arbitrary: out and outs
    rule: printBlock_printBlocks.induct)
  case (1 h p indent)
  then show ?case by simp
next
  case (2 fuel h p indent)
  from 2(3) obtain b kids where d: "deref h p = Some b"
    and k: "printBlocks fuel h (bBlocks b) (indent + 1) = Some kids"
    and o: "out = (if bName b \<noteq> ''root'' then [printHeader (Repeat ''  '' indent) b] else []) @
           printLines (Repeat ''  '' indent) (bLines b) @ kids @
           (if bName b \<noteq> ''root'' then [Repeat ''  '' indent @ ''}''] else [])"
    by (auto simp: Let_def split: bind_splits)
  from d 2(2) have bq: "blockQuiet b" by (auto simp: deref_def list_all_length split: if_splits)
  have kq: "list_all quiet kids" using 2(1) [OF d refl 2(2) k] .
  show ?case
    using bq kq by (simp add: o quiet_printHeader quiet_printLines quiet_Repeat blockQuiet_def)
next
  case (3 fuel h indent)
  then show ?case by simp
next
  case (4 fuel h childBlock rest indent)
  from 4(4) obtain first others where f: "printBlock fuel h childBlock indent = Some first"
    and r: "printBlocks fuel h rest indent = Some others" and o: "outs = first @ others"
    by (auto split: bind_splits)
  show ?case using 4(1) [OF 4(3) f] 4(2) [OF f 4(3) r] by (simp add: o)
qed

lemma quiet_PrintConfig:
  assumes "ParseConfig (Opened ls None) fp = Inr cfg" and "list_all quiet ls"
    and "PrintConfig fuel cfg = Some out"
  shows "list_all quiet out"
proof -
  from assms(1) have "store cfg = heap (scanSteps ls initState)"
    by (auto simp: ParseConfig_Opened)
  then have "list_all blockQuiet (store cfg)"
    using storeQuiet_scanSteps [OF storeQuiet_init stackOk_init assms(2)] by simp
  then show ?thesis using assms(3) unfolding PrintConfig_def by (rule quiet_printBlock)
qed

lemma ParseConfigFile_Inr:
  assumes "ParseConfigFile f fp = Inr cfg"
  shows "\<exists>data. f = File data None \<and> \<not> tooLong data \<and>
           ParseConfig (Opened (fileLines data) None) fp = Inr cfg"
proof (cases f)
  case (NoFile err)
  with assms show ?thesis by (simp add: ParseConfigFile_def scanFile_def ParseConfig_def)
next
  case (File data readErr)
  with assms show ?thesis
    by (cases readErr) (auto simp: ParseConfigFile_File split: if_splits)
qed

subsection \<open>The round trip through the scanner\<close>

text \<open>
  Claim C9, as the code has it. Let a parsed Config hold no block named \<open>root\<close> but
  the root itself and no directive that leaves a quote open. Then, with fuel for every
  block, the printer returns. If every line it prints is shorter than 64 KiB, the
  printed text parses, and the second Config has the same blocks at the same places
  (name, arguments, children, parent) and in every block the same sequence of lines
  that are not BlockStart lines (kind, name, arguments) and the same sequence of
  BlockStart lines. If a printed line is 64 KiB or longer, which the indentation and
  the \<open>;\<close> that the printer adds can bring about, the second parse fails with the
  scanner's \<open>ErrTooLong\<close>. The place of the BlockStart lines among the other lines of
  a block is not kept: the printer writes the lines of a block before its child blocks.
\<close>

theorem print_parse_same_structure:
  "ParseConfigFile f fp = Inr cfg \<longrightarrow>
   list_all (\<lambda>b. bName b \<noteq> ''root'') (tl (store cfg)) \<longrightarrow>
   list_all (\<lambda>b. list_all quotesClosed (bLines b)) (store cfg) \<longrightarrow>
   length (store cfg) \<le> fuel \<longrightarrow>
   (\<exists>out. PrintConfig fuel cfg = Some out \<and>
      (list_all (\<lambda>l. byteLen l < MaxScanTokenSize) out \<longrightarrow>
         (\<exists>cfg'. roundTrip fuel f fp = Inr (cfg, cfg') \<and>
                 ParseConfigFile (File (linesText out) None) fp = Inr cfg' \<and>
                 sameStructure (store cfg) (store cfg'))) \<and>
      (\<not> list_all (\<lambda>l. byteLen l < MaxScanTokenSize) out \<longrightarrow>
         roundTrip fuel f fp = Inl (ScanError ErrTooLong)))"
proof (intro impI)
  assume p: "ParseConfigFile f fp = Inr cfg"
    and r1: "list_all (\<lambda>b. bName b \<noteq> ''root'') (tl (store cfg))"
    and r2: "list_all (\<lambda>b. list_all quotesClosed (bLines b)) (store cfg)"
    and fu: "length (store cfg) \<le> fuel"
  from ParseConfigFile_Inr [OF p] obtain data where
    pl: "ParseConfig (Opened (fileLines data) None) fp = Inr cfg" by blast
  from round_trip_lines [rule_format, OF pl r1 r2 fu] obtain out cfg' where
    pr: "PrintConfig fuel cfg = Some out"
    and p': "ParseConfig (Opened out None) fp = Inr cfg'"
    and same: "sameStructure (store cfg) (store cfg')" by blast
  have q: "list_all quiet out" using pl fileLines_quiet pr by (rule quiet_PrintConfig)
  have ft: "list_all fits out = list_all (\<lambda>l. byteLen l < MaxScanTokenSize) out"
    by (simp add: fits_def [abs_def])
  note second = ParseConfigFile_text [OF q, of fp, unfolded ft]
  have a: "\<exists>cfg'. roundTrip fuel f fp = Inr (cfg, cfg') \<and>
                 ParseConfigFile (File (linesText out) None) fp = Inr cfg' \<and>
                 sameStructure (store cfg) (store cfg')"
    if "list_all (\<lambda>l. byteLen l < MaxScanTokenSize) out"
    using that second p' same by (simp add: roundTrip_def p pr)
  have b: "roundTrip fuel f fp = Inl (ScanError ErrTooLong)"
    if "\<not> list_all (\<lambda>l. byteLen l < MaxScanTokenSize) out"
    using that second by (simp add: roundTrip_def p pr)
  from pr a b show "\<exists>out. PrintConfig fuel cfg = Some out \<and>
      (list_all (\<lambda>l. byteLen l < MaxScanTokenSize) out \<longrightarrow>
         (\<exists>cfg'. roundTrip fuel f fp = Inr (cfg, cfg') \<and>
                 ParseConfigFile (File (linesText out) None) fp = Inr cfg' \<and>
                 sameStructure (store cfg) (store cfg'))) \<and>
      (\<not> list_all (\<lambda>l. byteLen l < MaxScanTokenSize) out \<longrightarrow>
         roundTrip fuel f fp = Inl (ScanError ErrTooLong))"
    by blast
qed

theorem print_parse_same_structure_witness:
  "\<exists>cfg out cfg'.
     ParseConfigFile (File (linesText [''http {'', ''server {'', ''listen 80;'', ''}'',
         ''gzip on; # compress'', ''}'']) None) ''f'' = Inr cfg \<and>
     list_all (\<lambda>b. bName b \<noteq> ''root'') (tl (store cfg)) \<and>
     list_all (\<lambda>b. list_all quotesClosed (bLines b)) (store cfg) \<and>
     length (store cfg) \<le> 3 \<and>
     PrintConfig 3 cfg = Some out \<and>
     out = [''  http {'', ''    gzip on; # compress'', ''    server {'', ''      listen 80;'',
            ''    }'', ''  }''] \<and>
     list_all (\<lambda>l. byteLen l < MaxScanTokenSize) out \<and>
     roundTrip 3 (File (linesText [''http {'', ''server {'', ''listen 80;'', ''}'',
         ''gzip on; # compress'', ''}'']) None) ''f'' = Inr (cfg, cfg') \<and>
     ParseConfigFile (File (linesText out) None) ''f'' = Inr cfg' \<and>
     sameStructure (store cfg) (store cfg')"
proof -
  let ?ls = "[''http {'', ''server {'', ''listen 80;'', ''}'', ''gzip on; # compress'', ''}'']"
  let ?f = "File (linesText ?ls) None"
  let ?cfg = "\<lparr>store = heap (scanSteps ?ls initState), RootBlock = 0, FilePath = ''f''\<rparr>"
  let ?out = "[''  http {'', ''    gzip on; # compress'', ''    server {'', ''      listen 80;'',
            ''    }'', ''  }'']"
  have "ParseConfigFile ?f ''f'' = ParseConfig (Opened ?ls None) ''f''"
    by (simp add: file_simps)
  then have p: "ParseConfigFile ?f ''f'' = Inr ?cfg" by (simp only: ParseConfig_Opened)
  have r1: "list_all (\<lambda>b. bName b \<noteq> ''root'') (tl (store ?cfg))"
    by (simp add: run_simps)
  have r2: "list_all (\<lambda>b. list_all quotesClosed (bLines b)) (store ?cfg)"
    by (simp add: run_simps print_simps)
  have fu: "length (store ?cfg) \<le> 3" by (simp add: run_simps)
  have pr: "PrintConfig 3 ?cfg = Some ?out" by (simp add: run_simps print_simps)
  have fit: "list_all (\<lambda>l. byteLen l < MaxScanTokenSize) ?out"
    by (simp add: MaxScanTokenSize_def)
  from print_parse_same_structure [of ?f "''f''" ?cfg 3, rule_format, OF p r1 r2 fu]
  obtain out where o: "PrintConfig 3 ?cfg = Some out"
    and t: "list_all (\<lambda>l. byteLen l < MaxScanTokenSize) out \<longrightarrow>
         (\<exists>cfg'. roundTrip 3 ?f ''f'' = Inr (?cfg, cfg') \<and>
                 ParseConfigFile (File (linesText out) None) ''f'' = Inr cfg' \<and>
                 sameStructure (store ?cfg) (store cfg'))" by blast
  from o pr have "out = ?out" by simp
  with t fit obtain cfg' where "roundTrip 3 ?f ''f'' = Inr (?cfg, cfg')"
    "ParseConfigFile (File (linesText ?out) None) ''f'' = Inr cfg'"
    "sameStructure (store ?cfg) (store cfg')" by blast
  with p r1 r2 fu pr fit show ?thesis by blast
qed

lemma unquotedOcc_absent: "x \<notin> set s \<Longrightarrow> \<not> unquotedOcc x s q"
  by (induction s arbitrary: q) auto

lemma quoteScan_plain:
  "CHR 0x27 \<notin> set s \<Longrightarrow> CHR 0x22 \<notin> set s \<Longrightarrow> quoteScan s q = q"
  by (induction s arbitrary: q) (auto simp: quoteStep_def)

lemma word_line:
  assumes ne: "w \<noteq> []" and a: "set w \<subseteq> {CHR ''a''}"
  defines "l \<equiv> \<lparr>lName = w, lParams = [], lComments = [], lType = LineTypeDirective\<rparr>"
  shows "TrimSpace (w @ '';'') = w @ '';''"
    and "ParseConfig (Opened [w @ '';''] None) fp =
      Inr \<lparr>store = [\<lparr>bName = ''root'', bParams = [], bLines = [l], bBlocks = [],
                      bComments = [], bParentRef = None\<rparr>],
           RootBlock = 0, FilePath = fp\<rparr>"
    and "printLine [] l = ''  '' @ w @ '';''"
proof -
  have sp: "\<forall>c \<in> set w. \<not> isSpace c" using a by (auto simp: isSpace_def)
  have inc: "w \<noteq> ''include''" using a by auto
  have h: "hd w = CHR ''a''" "last w = CHR ''a''" using ne a
    by (metis hd_in_set insertE subsetD empty_iff, metis last_in_set insertE subsetD empty_iff)
  have pl: "printLine [] l = ''  '' @ w @ '';''" by (simp add: printLine_eq l_def)
  show "printLine [] l = ''  '' @ w @ '';''" by (rule pl)
  have "\<not> isSpace (hd (w @ '';'')) \<and> \<not> isSpace (last (w @ '';''))"
    using ne h by (simp add: isSpace_def)
  then show ts: "TrimSpace (w @ '';'') = w @ '';''" by (intro TrimSpace_id) simp
  have "TrimSpace (''  '' @ w @ '';'') = TrimSpace (w @ '';'')"
    by (simp add: TrimSpace_def)
  then have tp: "TrimSpace (printLine [] l) = w @ '';''" by (simp add: pl ts)
  have good: "lineGood l"
    using ne a sp inc h
    by (auto simp: lineGood_def l_def textGood_def wordOk_def list_all_iff
        intro!: unquotedOcc_absent)
  have "quoteScan w noQuote = noQuote" using a by (intro quoteScan_plain) auto
  then have closed: "quotesClosed l"
    by (simp add: quotesClosed_def l_def) (simp add: noQuote_def)
  have "lType l \<noteq> LineTypeBlock" "lType l \<noteq> LineTypeComment" by (simp_all add: l_def)
  from reparse_directive_line [OF good this closed, of "[]"]
  have it: "lineItems (w @ '';'') = [reline l]" by (simp only: tp) simp
  have "CHR ''#'' \<notin> set (w @ '';'')" using a by auto
  then have "reline l = l\<lparr>lComments := []\<rparr>" by (simp add: reline_def tp commentOf_plain)
  then have "reline l = l" by (simp add: l_def)
  with it have items: "lineItems (w @ '';'') = [l]" by simp
  have st: "scanSteps [w @ '';''] initState = lineStep (w @ '';'') 0 initState"
    using ne by (simp add: ts) (simp add: initState_def)
  have "heap (lineStep (w @ '';'') 0 initState) =
      (heap initState)[0 := grown (length (heap initState)) [l] (heap initState ! 0)] @
        map (blockOf 0) (filter isBlockStart [l])"
    using lineStep_heap [of 0 initState "w @ '';''"] by (simp add: items initState_def)
  also have "\<dots> = [\<lparr>bName = ''root'', bParams = [], bLines = [l], bBlocks = [],
        bComments = [], bParentRef = None\<rparr>]"
    by (simp add: initState_def rootBlock_def grown_def isBlockStart_def l_def)
  finally have "heap (scanSteps [w @ '';''] initState) =
      [\<lparr>bName = ''root'', bParams = [], bLines = [l], bBlocks = [],
        bComments = [], bParentRef = None\<rparr>]"
    by (simp only: st)
  then show "ParseConfig (Opened [w @ '';''] None) fp =
      Inr \<lparr>store = [\<lparr>bName = ''root'', bParams = [], bLines = [l], bBlocks = [],
                      bComments = [], bParentRef = None\<rparr>],
           RootBlock = 0, FilePath = fp\<rparr>"
    by (simp only: ParseConfig_Opened)
qed

lemma long_line_round_trip:
  assumes ne: "w \<noteq> []" and a: "set w \<subseteq> {CHR ''a''}" and n: "length w = 65533"
  shows "ParseConfigFile (File (linesText [w @ '';'']) None) fp =
      Inr \<lparr>store = [\<lparr>bName = ''root'', bParams = [],
          bLines = [\<lparr>lName = w, lParams = [], lComments = [], lType = LineTypeDirective\<rparr>],
          bBlocks = [], bComments = [], bParentRef = None\<rparr>],
           RootBlock = 0, FilePath = fp\<rparr>"
    and "printed 1 (File (linesText [w @ '';'']) None) fp = Some [''  '' @ w @ '';'']"
    and "roundTrip 1 (File (linesText [w @ '';'']) None) fp = Inl (ScanError ErrTooLong)"
    and "\<not> roundTripSame 1 (File (linesText [w @ '';'']) None) fp"
proof -
  let ?l = "\<lparr>lName = w, lParams = [], lComments = [], lType = LineTypeDirective\<rparr>"
  let ?cfg = "\<lparr>store = [\<lparr>bName = ''root'', bParams = [], bLines = [?l], bBlocks = [],
                      bComments = [], bParentRef = None\<rparr>],
           RootBlock = 0, FilePath = fp\<rparr>"
  have asc: "\<forall>c \<in> set w. (of_char c :: nat) < 128" using a by auto
  have qw: "quiet w" using a by (auto simp: quiet_def)
  have bw: "byteLen w = 65533" using byteLen_ascii [OF asc] n by simp
  have "list_all quiet [w @ '';'']" "list_all fits [w @ '';'']"
    using qw bw by (simp_all add: fits_def MaxScanTokenSize_def)
  then have f1: "ParseConfigFile (File (linesText [w @ '';'']) None) fp =
      ParseConfig (Opened [w @ '';''] None) fp"
    by (simp only: ParseConfigFile_text if_True)
  show p: "ParseConfigFile (File (linesText [w @ '';'']) None) fp = Inr ?cfg"
    unfolding f1 using word_line(2) [OF ne a, of fp] .
  have pr: "PrintConfig (Suc 0) ?cfg = Some [''  '' @ w @ '';'']"
    using word_line(3) [OF ne a]
    by (simp add: PrintConfig_def deref_def Repeat_def)
  show "printed 1 (File (linesText [w @ '';'']) None) fp = Some [''  '' @ w @ '';'']"
    by (simp add: printed_def p pr)
  have "list_all quiet [''  '' @ w @ '';'']" "\<not> list_all fits [''  '' @ w @ '';'']"
    using qw bw by (simp_all add: fits_def MaxScanTokenSize_def)
  then have f2: "ParseConfigFile (File (linesText [''  '' @ w @ '';'']) None) fp =
      Inl (ScanError ErrTooLong)"
    by (simp only: ParseConfigFile_text if_False)
  show r: "roundTrip 1 (File (linesText [w @ '';'']) None) fp = Inl (ScanError ErrTooLong)"
    using f2 by (simp add: roundTrip_def p pr)
  show "\<not> roundTripSame 1 (File (linesText [w @ '';'']) None) fp"
    unfolding roundTripSame_def r by simp
qed

text \<open>
  Claim C9 as worded, for every parsed Config, does not hold. A block followed by a
  directive comes back with the directive first, as the printer writes the lines of a
  block before its child blocks. A directive that leaves a quote open comes back with
  the printed \<open>;\<close> inside its last argument. A block named \<open>root\<close> is printed without
  its header and its closing brace, and its lines come back as lines of the root. A
  directive of 65534 bytes parses, and its printed line, two blanks longer, is refused
  by the scanner of the second parse.
\<close>

theorem print_parse_changes_lines:
  "printed 2 (File (linesText [''a {'', ''}'', ''b;'']) None) ''f'' =
     Some [''  b;'', ''  a {'', ''  }''] \<and>
   tripLines 2 (File (linesText [''a {'', ''}'', ''b;'']) None) ''f'' =
     Inr ([[(''a'', []), (''b'', [])], []], [[(''b'', []), (''a'', [])], []]) \<and>
   \<not> roundTripSame 2 (File (linesText [''a {'', ''}'', ''b;'']) None) ''f'' \<and>
   printed 1 (File (linesText [''a \"b'']) None) ''f'' = Some [''  a \"b;''] \<and>
   tripLines 1 (File (linesText [''a \"b'']) None) ''f'' =
     Inr ([[(''a'', [''\"b''])]], [[(''a'', [''\"b;''])]]) \<and>
   \<not> roundTripSame 1 (File (linesText [''a \"b'']) None) ''f'' \<and>
   printed 2 (File (linesText [''root {'', ''a;'', ''}'']) None) ''f'' = Some [''    a;''] \<and>
   tripLines 2 (File (linesText [''root {'', ''a;'', ''}'']) None) ''f'' =
     Inr ([[(''root'', [])], [(''a'', [])]], [[(''a'', [])]]) \<and>
   \<not> roundTripSame 2 (File (linesText [''root {'', ''a;'', ''}'']) None) ''f'' \<and>
   printed 1 (File (linesText [replicate 65533 (CHR ''a'') @ '';'']) None) ''f'' =
     Some [''  '' @ replicate 65533 (CHR ''a'') @ '';''] \<and>
   roundTrip 1 (File (linesText [replicate 65533 (CHR ''a'') @ '';'']) None) ''f'' =
     Inl (ScanError ErrTooLong) \<and>
   \<not> roundTripSame 1 (File (linesText [replicate 65533 (CHR ''a'') @ '';'']) None) ''f''"
proof -
  have a1: "ParseConfigFile (File (linesText [''a {'', ''}'', ''b;'']) None) ''f'' =
      ParseConfig (Opened [''a {'', ''}'', ''b;''] None) ''f''"
    by (simp add: file_simps)
  have b1: "ParseConfigFile (File (linesText [''  b;'', ''  a {'', ''  }'']) None) ''f'' =
      ParseConfig (Opened [''  b;'', ''  a {'', ''  }''] None) ''f''"
    by (simp add: file_simps)
  have a2: "ParseConfigFile (File (linesText [''a \"b'']) None) ''f'' =
      ParseConfig (Opened [''a \"b''] None) ''f''"
    by (simp add: file_simps)
  have b2: "ParseConfigFile (File (linesText [''  a \"b;'']) None) ''f'' =
      ParseConfig (Opened [''  a \"b;''] None) ''f''"
    by (simp add: file_simps)
  have a3: "ParseConfigFile (File (linesText [''root {'', ''a;'', ''}'']) None) ''f'' =
      ParseConfig (Opened [''root {'', ''a;'', ''}''] None) ''f''"
    by (simp add: file_simps)
  have b3: "ParseConfigFile (File (linesText [''    a;'']) None) ''f'' =
      ParseConfig (Opened [''    a;''] None) ''f''"
    by (simp add: file_simps)
  have c1: "printed 2 (File (linesText [''a {'', ''}'', ''b;'']) None) ''f'' =
     Some [''  b;'', ''  a {'', ''  }''] \<and>
   tripLines 2 (File (linesText [''a {'', ''}'', ''b;'']) None) ''f'' =
     Inr ([[(''a'', []), (''b'', [])], []], [[(''b'', []), (''a'', [])], []]) \<and>
   \<not> roundTripSame 2 (File (linesText [''a {'', ''}'', ''b;'']) None) ''f''"
    by (simp add: printed_def tripLines_def roundTripSame_def roundTrip_def scopeHeads_def
      lineHeads_def a1 b1 ParseConfig_Opened run_simps print_simps)
  have c2: "printed 1 (File (linesText [''a \"b'']) None) ''f'' = Some [''  a \"b;''] \<and>
   tripLines 1 (File (linesText [''a \"b'']) None) ''f'' =
     Inr ([[(''a'', [''\"b''])]], [[(''a'', [''\"b;''])]]) \<and>
   \<not> roundTripSame 1 (File (linesText [''a \"b'']) None) ''f''"
    by (simp add: printed_def tripLines_def roundTripSame_def roundTrip_def scopeHeads_def
      lineHeads_def a2 b2 ParseConfig_Opened run_simps print_simps)
  have c3: "printed 2 (File (linesText [''root {'', ''a;'', ''}'']) None) ''f'' = Some [''    a;''] \<and>
   tripLines 2 (File (linesText [''root {'', ''a;'', ''}'']) None) ''f'' =
     Inr ([[(''root'', [])], [(''a'', [])]], [[(''a'', [])]]) \<and>
   \<not> roundTripSame 2 (File (linesText [''root {'', ''a;'', ''}'']) None) ''f''"
    by (simp add: printed_def tripLines_def roundTripSame_def roundTrip_def scopeHeads_def
      lineHeads_def a3 b3 ParseConfig_Opened run_simps print_simps)
  define w where "w = replicate 65533 (CHR ''a'')"
  have "w \<noteq> []" "set w \<subseteq> {CHR ''a''}" "length w = 65533" by (simp_all add: w_def)
  note long = long_line_round_trip(2-4) [OF this, of "''f''", unfolded w_def]
  from c1 c2 c3 long show ?thesis by (intro conjI) (erule conjunct1 | erule conjunct2 [THEN conjunct1] | erule conjunct2 [THEN conjunct2] | assumption)+
qed

end
